theory Spec2Isabelle
  imports Main "HOL-Library.Sublist" "HOL-Library.Multiset"
begin

section \<open>Python strings\<close>

text \<open>
  A Python \<open>str\<close> is a sequence of Unicode code points. It is modelled as a list of
  natural numbers, one per code point, so that the whitespace \<open>str.strip\<close> removes and
  the newline the regular expression's dot refuses are the ones Python uses. A literal
  of the source is written \<open>ascii ''...''\<close>.
\<close>

type_synonym str = "nat list"

definition ascii :: "string \<Rightarrow> str" where
  "ascii s = map of_char s"

text \<open>
  The code points for which \<open>str.isspace\<close> holds; \<open>str.strip()\<close> with no argument
  removes exactly these from both ends.
\<close>

definition isspace :: "nat \<Rightarrow> bool" where
  "isspace c \<longleftrightarrow>
     (9 \<le> c \<and> c \<le> 13) \<or> (28 \<le> c \<and> c \<le> 32) \<or> c = 133 \<or> c = 160 \<or> c = 5760 \<or>
     (8192 \<le> c \<and> c \<le> 8202) \<or> c = 8232 \<or> c = 8233 \<or> c = 8239 \<or> c = 8287 \<or> c = 12288"

definition strip :: "str \<Rightarrow> str" where
  "strip s = rev (dropWhile isspace (rev (dropWhile isspace s)))"

text \<open>\<open>s.startswith(p)\<close> is \<^const>\<open>prefix\<close>, and \<open>k in line\<close> on strings is \<^const>\<open>sublist\<close>.\<close>

definition startswith :: "str \<Rightarrow> str \<Rightarrow> bool" where
  "startswith s p = prefix p s"

definition newline :: nat where
  "newline = 10"

definition comma :: nat where
  "comma = 44"

text \<open>
  \<open>re.search(r",(.+)", line)\<close>: the leftmost comma that is followed by at least one
  character other than a newline; group 1 is the longest run of such characters after
  that comma (the dot does not match a newline, and \<open>+\<close> is greedy). The result is
  group 1 of the match, or \<open>None\<close> when nothing matches.
\<close>

fun re_search_comma :: "str \<Rightarrow> str option" where
  "re_search_comma [] = None"
| "re_search_comma (c # cs) =
     (if c = comma \<and> takeWhile (\<lambda>d. d \<noteq> newline) cs \<noteq> []
      then Some (takeWhile (\<lambda>d. d \<noteq> newline) cs)
      else re_search_comma cs)"

section \<open>Playlist parsing: \<open>parse_m3u_lines\<close>\<close>

text \<open>
  The loop of \<open>parse_m3u_lines\<close>, with the loop variable \<open>current_name\<close> as an
  argument; the entries are returned in the order in which \<open>entries.append\<close> adds them.
\<close>

fun parse_loop :: "str \<Rightarrow> str list \<Rightarrow> (str \<times> str) list" where
  "parse_loop current_name [] = []"
| "parse_loop current_name (l # ls) =
     (let line = strip l in
      if startswith line (ascii ''#EXTINF:'') then
        (case re_search_comma line of
           Some g \<Rightarrow> parse_loop (strip g) ls
         | None \<Rightarrow> parse_loop current_name ls)
      else if startswith line (ascii ''http'') then
        (current_name, line) # parse_loop current_name ls
      else parse_loop current_name ls)"

definition parse_m3u_lines :: "str list \<Rightarrow> (str \<times> str) list" where
  "parse_m3u_lines lines = parse_loop (ascii ''Unknown'') lines"

text \<open>The two tests the loop makes on a line, as predicates on the raw line.\<close>

definition extinf_line :: "str \<Rightarrow> bool" where
  "extinf_line l \<longleftrightarrow> startswith (strip l) (ascii ''#EXTINF:'')"

definition url_line :: "str \<Rightarrow> bool" where
  "url_line l \<longleftrightarrow> startswith (strip l) (ascii ''http'')"

text \<open>The loop assigns \<open>current_name\<close> at this line (line 115 is reached).\<close>

definition sets_name :: "str \<Rightarrow> bool" where
  "sets_name l \<longleftrightarrow> extinf_line l \<and> re_search_comma (strip l) \<noteq> None"

text \<open>A line that is neither a metadata line nor a URL line: a header, a comment, an
  option line, a blank line.\<close>

definition other_line :: "str \<Rightarrow> bool" where
  "other_line l \<longleftrightarrow> \<not> extinf_line l \<and> \<not> url_line l"

subsection \<open>Playlists as the specification describes them\<close>

text \<open>
  The following definitions are not taken from the source. They write down the
  playlist format the specification speaks of, so that the parser can be compared
  with it: the text after the last comma of a line, and the text of a playlist made of
  metadata/URL pairs as it comes out of \<open>readlines\<close>, every line ending in a newline.
\<close>

definition after_last_comma :: "str \<Rightarrow> str" where
  "after_last_comma line = rev (takeWhile (\<lambda>c. c \<noteq> comma) (rev line))"

text \<open>A display name: not empty, on one line, without surrounding whitespace.\<close>

definition valid_name :: "str \<Rightarrow> bool" where
  "valid_name n \<longleftrightarrow> n \<noteq> [] \<and> newline \<notin> set n \<and> \<not> isspace (hd n) \<and> \<not> isspace (last n)"

definition valid_url :: "str \<Rightarrow> bool" where
  "valid_url u \<longleftrightarrow> startswith u (ascii ''http'') \<and> \<not> isspace (last u)"

text \<open>A metadata line \<open>#EXTINF:<attrs>,<name>\<close> and a URL line.\<close>

definition extinf_text :: "str \<Rightarrow> str \<Rightarrow> str" where
  "extinf_text attrs name = ascii ''#EXTINF:'' @ attrs @ comma # name @ [newline]"

definition url_text :: "str \<Rightarrow> str" where
  "url_text u = u @ [newline]"

text \<open>
  One entry of a playlist: the metadata line with its attributes and title, the lines
  between it and the URL line, the URL, and the lines after the URL line.
\<close>

record item =
  attrs :: str
  title :: str
  between :: "str list"
  address :: str
  trailing :: "str list"

definition item_text :: "item \<Rightarrow> str list" where
  "item_text it =
     extinf_text (attrs it) (title it) # between it @ url_text (address it) # trailing it"

definition valid_item :: "item \<Rightarrow> bool" where
  "valid_item it \<longleftrightarrow>
     comma \<notin> set (attrs it) \<and> valid_name (title it) \<and> valid_url (address it) \<and>
     list_all other_line (between it) \<and> list_all other_line (trailing it)"

text \<open>A URL line without a metadata line before it, and the lines after it.\<close>

definition bare_text :: "str \<times> str list \<Rightarrow> str list" where
  "bare_text b = (case b of (url, rest) \<Rightarrow> url_text url # rest)"

definition valid_bare :: "str \<times> str list \<Rightarrow> bool" where
  "valid_bare b = (case b of (url, rest) \<Rightarrow> valid_url url \<and> list_all other_line rest)"

section \<open>The probe's environment\<close>

text \<open>
  \<open>test_channel\<close> and \<open>check_stream_status\<close> talk to the operating system: they spawn
  \<open>ffplay\<close>, start a reader thread, read the clock, sleep, poll and stop the process.
  Everything the environment decides is collected in a \<open>world\<close>, one per probe session.
  Times are integers in milliseconds, measured from \<open>start_time\<close>; the arguments
  \<open>timeout\<close>, \<open>grace_period\<close> and \<open>extended_check\<close> are in milliseconds too, so that
  \<open>timeout=4\<close> is \<open>4000\<close>.

  The clock is idealised: \<open>time.sleep(0.2)\<close> takes exactly 200 ms (one tick),
  \<open>process.wait(timeout=2)\<close> takes as long as the process needs to exit (at most
  2000 ms), and every other statement takes no time.

  The calls that may raise are \<open>subprocess.Popen\<close> (the spawn), \<open>Thread.start\<close> and
  \<open>print\<close> (a write to a standard output that has gone away or is full, say). The
  termination calls do not raise. \<open>taskkill /F\<close> is taken to have ended the process when
  \<open>subprocess.call\<close> returns; \<open>process.kill()\<close> only sends the signal and returns.
\<close>

datatype exn = OSError | RuntimeError | BrokenPipeError

record world =
  popen_raises :: "exn option"          \<comment> \<open>\<open>subprocess.Popen\<close> raises (no process is created)\<close>
  start_raises :: "exn option"          \<comment> \<open>\<open>stderr_thread.start()\<close> raises\<close>
  print_raises :: "nat \<Rightarrow> exn option"    \<comment> \<open>the session's \<open>print\<close> number \<open>i\<close> (from 0) raises\<close>
  stderr_feed :: "(int \<times> str) list"     \<comment> \<open>each diagnostic line with the time at which the
                                            reader thread appends it to \<open>output_lines\<close>,
                                            in the order of arrival\<close>
  exit_at :: "int option"               \<comment> \<open>when the process exits on its own, if ever\<close>
  windows :: bool                       \<comment> \<open>\<open>platform.system() == "Windows"\<close>\<close>
  sigterm_delay :: "nat option"         \<comment> \<open>how long the process takes to exit after
                                            \<open>process.terminate()\<close>; \<open>None\<close>: it ignores the signal\<close>

datatype message =
  Testing str | Waiting | Success str | Maybe str | Fail str | Error str exn

record state =
  now :: int                            \<comment> \<open>\<open>time.time() - start_time\<close>\<close>
  spawned :: bool                       \<comment> \<open>\<open>Popen\<close> has returned a process\<close>
  stopped :: bool                       \<comment> \<open>the termination block has seen the process end\<close>
  kill_sent :: bool                     \<comment> \<open>\<open>process.kill()\<close> has been called\<close>
  success_detected :: bool
  connection_detected :: bool
  printed :: "message list"             \<comment> \<open>what \<open>print\<close> has written, oldest first\<close>

definition initial :: state where
  "initial = \<lparr>now = 0, spawned = False, stopped = False, kill_sent = False,
     success_detected = False, connection_detected = False, printed = []\<rparr>"

text \<open>
  \<open>print(message)\<close>: the message is written, or the call raises and nothing is written.
  \<open>Inl (e, s)\<close> is the exception \<open>e\<close> raised in state \<open>s\<close>.
\<close>

definition print_message :: "world \<Rightarrow> message \<Rightarrow> state \<Rightarrow> (exn \<times> state) + state" where
  "print_message w m s =
     (case print_raises w (length (printed s)) of
        Some e \<Rightarrow> Inl (e, s)
      | None \<Rightarrow> Inr (s\<lparr>printed := printed s @ [m]\<rparr>))"

text \<open>The process has exited on its own by time \<open>t\<close>.\<close>

definition self_exited :: "world \<Rightarrow> int \<Rightarrow> bool" where
  "self_exited w t = (case exit_at w of None \<Rightarrow> False | Some e \<Rightarrow> e \<le> t)"

text \<open>\<open>process.poll() is None\<close>: the process exists and has not ended.\<close>

definition running :: "world \<Rightarrow> state \<Rightarrow> bool" where
  "running w s \<longleftrightarrow> spawned s \<and> \<not> stopped s \<and> \<not> self_exited w (now s)"

text \<open>The list \<open>output_lines\<close> as the polling loop finds it at time \<open>t\<close>.\<close>

definition output_lines :: "world \<Rightarrow> int \<Rightarrow> str list" where
  "output_lines w t = map snd (filter (\<lambda>(a, l). a \<le> t) (stderr_feed w))"

section \<open>The classifier\<close>

text \<open>\<open>any(k in line for k in keywords)\<close>\<close>

definition any_in :: "str list \<Rightarrow> str \<Rightarrow> bool" where
  "any_in keywords line = list_ex (\<lambda>k. sublist k line) keywords"

text \<open>The keyword tuples of \<open>test_channel\<close> (lines 43-44).\<close>

definition success_keywords :: "str list" where
  "success_keywords = [ascii ''Stream #'', ascii ''Video:'', ascii ''Duration:'']"

definition connecting_keywords :: "str list" where
  "connecting_keywords =
     [ascii ''Opening'', ascii ''buffer'', ascii ''Cache'', ascii ''Connected'', ascii ''AVIO'']"

text \<open>The success keywords of \<open>check_stream_status\<close> (line 149); its connecting keywords
  (line 150) are those of \<open>test_channel\<close>.\<close>

definition css_success_keywords :: "str list" where
  "css_success_keywords =
     [ascii ''Stream #'', ascii ''Video:'', ascii ''Opening'', ascii ''AVFormat'',
      ascii ''Duration:'']"

text \<open>
  The bodies of \<open>test_channel\<close> and \<open>check_stream_status\<close> are the same statements; they
  differ in the success keywords, the wording of the messages and the shape of the
  returned value. The loops are therefore modelled once, with the keyword tuples \<open>sk\<close>
  (success) and \<open>ck\<close> (connecting) as arguments.

  The \<open>for\<close> loop of the main phase (lines 54-58): every accumulated line is scanned,
  and a flag that is set stays set.
\<close>

fun scan_main :: "str list \<Rightarrow> str list \<Rightarrow> str list \<Rightarrow> state \<Rightarrow> state" where
  "scan_main sk ck [] s = s"
| "scan_main sk ck (line # rest) s =
     scan_main sk ck rest
       (let s1 = (if any_in sk line then s\<lparr>success_detected := True\<rparr> else s)
        in if any_in ck line then s1\<lparr>connection_detected := True\<rparr> else s1)"

text \<open>The \<open>for\<close> loop of the extended phase (lines 72-75), which stops at the first hit.\<close>

fun scan_extended :: "str list \<Rightarrow> str list \<Rightarrow> state \<Rightarrow> state" where
  "scan_extended sk [] s = s"
| "scan_extended sk (line # rest) s =
     (if any_in sk line then s\<lparr>success_detected := True\<rparr> else scan_extended sk rest s)"

text \<open>The main phase (lines 49-63).\<close>

function main_loop :: "str list \<Rightarrow> str list \<Rightarrow> world \<Rightarrow> int \<Rightarrow> int \<Rightarrow> state \<Rightarrow> state" where
  "main_loop sk ck w timeout grace_period s =
     (if now s < timeout then
        if \<not> running w s then s
        else
          let current_time = now s;
              s' = scan_main sk ck (output_lines w (now s)) s
          in if success_detected s' \<and> current_time \<ge> grace_period then s'
             else main_loop sk ck w timeout grace_period (s'\<lparr>now := now s + 200\<rparr>)
      else s)"
  by pat_completeness auto

termination
  by (relation "measure (\<lambda>(sk, ck, w, timeout, grace_period, s). nat (timeout - now s))") auto

declare main_loop.simps [simp del]

text \<open>
  The loop of the extended phase (lines 69-78); \<open>extra_time\<close> is the clock reading
  taken when the phase begins.
\<close>

function extended_loop :: "str list \<Rightarrow> world \<Rightarrow> int \<Rightarrow> int \<Rightarrow> state \<Rightarrow> state" where
  "extended_loop sk w extra_time extended_check s =
     (if now s - extra_time < extended_check then
        if \<not> running w s then s
        else
          let s' = scan_extended sk (output_lines w (now s)) s
          in if success_detected s' then s'
             else extended_loop sk w extra_time extended_check (s'\<lparr>now := now s + 200\<rparr>)
      else s)"
  by pat_completeness auto
termination
  by (relation "measure (\<lambda>(sk, w, extra_time, extended_check, s).
        nat (extended_check - (now s - extra_time)))") auto

declare extended_loop.simps [simp del]

text \<open>The extended phase (lines 66-78), entered only when a connection but no success
  has been seen.\<close>

definition extended_phase ::
  "str list \<Rightarrow> world \<Rightarrow> int \<Rightarrow> state \<Rightarrow> (exn \<times> state) + state" where
  "extended_phase sk w extended_check s =
     (if connection_detected s \<and> \<not> success_detected s then
        (case print_message w Waiting s of
           Inl x \<Rightarrow> Inl x
         | Inr s' \<Rightarrow> Inr (extended_loop sk w (now s') extended_check s'))
      else Inr s)"

text \<open>
  When the process is gone once \<open>SIGTERM\<close> has been sent at time \<open>t\<close>: after its
  \<open>sigterm_delay\<close>, or at its own exit if that comes first.
\<close>

definition sigterm_exit :: "world \<Rightarrow> int \<Rightarrow> int option" where
  "sigterm_exit w t =
     (case sigterm_delay w of
        None \<Rightarrow> exit_at w
      | Some d \<Rightarrow>
          (case exit_at w of
             None \<Rightarrow> Some (t + int d)
           | Some e \<Rightarrow> Some (min (t + int d) e)))"

text \<open>
  The termination block (lines 81-90). On Windows \<open>taskkill /F /T\<close> ends the process.
  Elsewhere \<open>process.terminate()\<close> is followed by \<open>process.wait(timeout=2)\<close>, which
  returns when the process is gone; after 2000 ms it raises \<open>TimeoutExpired\<close> and the
  handler calls \<open>process.kill()\<close>, which sends \<open>SIGKILL\<close> and returns without waiting:
  the process has not been seen to end, and \<open>process.poll()\<close> is still \<open>None\<close>.
\<close>

definition terminate_process :: "world \<Rightarrow> state \<Rightarrow> state" where
  "terminate_process w s =
     (if running w s then
        if windows w then s\<lparr>stopped := True\<rparr>
        else
          (case sigterm_exit w (now s) of
             Some x \<Rightarrow>
               if x \<le> now s + 2000 then s\<lparr>now := x, stopped := True\<rparr>
               else s\<lparr>now := now s + 2000, kill_sent := True\<rparr>
           | None \<Rightarrow> s\<lparr>now := now s + 2000, kill_sent := True\<rparr>)
      else s)"

text \<open>
  The three branches of the verdict (lines 92-100): the message each prints and the
  truth value each returns.
\<close>

definition report :: "world \<Rightarrow> str \<Rightarrow> state \<Rightarrow> (exn \<times> state) + (bool \<times> state)" where
  "report w name s =
     (if success_detected s then
        (case print_message w (Success name) s of
           Inl x \<Rightarrow> Inl x | Inr s' \<Rightarrow> Inr (True, s'))
      else if connection_detected s then
        (case print_message w (Maybe name) s of
           Inl x \<Rightarrow> Inl x | Inr s' \<Rightarrow> Inr (False, s'))
      else
        (case print_message w (Fail name) s of
           Inl x \<Rightarrow> Inl x | Inr s' \<Rightarrow> Inr (False, s')))"

text \<open>
  The statements inside \<open>try\<close> (lines 27-100). \<open>Inl (e, s)\<close>: the exception \<open>e\<close> was
  raised in state \<open>s\<close>; \<open>Inr (b, s)\<close>: a verdict branch returned \<open>b\<close>.
\<close>

definition probe_body ::
  "str list \<Rightarrow> str list \<Rightarrow> world \<Rightarrow> str \<Rightarrow> int \<Rightarrow> int \<Rightarrow> int \<Rightarrow> state \<Rightarrow>
     (exn \<times> state) + (bool \<times> state)" where
  "probe_body sk ck w name timeout grace_period extended_check s0 =
     (case popen_raises w of
        Some e \<Rightarrow> Inl (e, s0)
      | None \<Rightarrow>
          let s1 = s0\<lparr>spawned := True\<rparr> in
          (case start_raises w of
             Some e \<Rightarrow> Inl (e, s1)
           | None \<Rightarrow>
               (case extended_phase sk w extended_check
                       (main_loop sk ck w timeout grace_period s1) of
                  Inl x \<Rightarrow> Inl x
                | Inr s2 \<Rightarrow> report w name (terminate_process w s2))))"

text \<open>
  The state in which the main phase begins when nothing was raised before it: the
  first message is printed and the process is there.
\<close>

definition started :: "str \<Rightarrow> state" where
  "started name = initial\<lparr>spawned := True, printed := [Testing name]\<rparr>"

text \<open>
  What a call leaves behind: the value it returns and the state at that moment.
\<close>

record 'a session =
  result :: 'a
  final :: state

text \<open>
  \<open>test_channel\<close> (lines 20-104). \<open>Inl e\<close>: the exception \<open>e\<close> leaves the function. The
  \<open>print\<close> of line 24 stands before \<open>try\<close>, so what it raises is not caught. The handler
  of line 102 catches what the body raises, prints the error (line 103, which may raise
  in its turn) and returns \<open>(name, url, False)\<close>.
\<close>

definition test_channel ::
  "world \<Rightarrow> str \<Rightarrow> str \<Rightarrow> int \<Rightarrow> int \<Rightarrow> int \<Rightarrow> exn + (str \<times> str \<times> bool) session" where
  "test_channel w name url timeout grace_period extended_check =
     (case print_message w (Testing name) initial of
        Inl (e, s) \<Rightarrow> Inl e
      | Inr s0 \<Rightarrow>
          (case probe_body success_keywords connecting_keywords w name timeout grace_period
                  extended_check s0 of
             Inr (b, s) \<Rightarrow> Inr \<lparr>result = (name, url, b), final = s\<rparr>
           | Inl (e, s) \<Rightarrow>
               (case print_message w (Error name e) s of
                  Inl (e', s') \<Rightarrow> Inl e'
                | Inr s' \<Rightarrow> Inr \<lparr>result = (name, url, False), final = s'\<rparr>)))"

text \<open>\<open>check_stream_status\<close> (lines 120-211), which returns the truth value alone.\<close>

definition check_stream_status ::
  "world \<Rightarrow> str \<Rightarrow> str \<Rightarrow> int \<Rightarrow> int \<Rightarrow> int \<Rightarrow> exn + bool session" where
  "check_stream_status w name url timeout grace_period extended_check =
     (case print_message w (Testing name) initial of
        Inl (e, s) \<Rightarrow> Inl e
      | Inr s0 \<Rightarrow>
          (case probe_body css_success_keywords connecting_keywords w name timeout
                  grace_period extended_check s0 of
             Inr (b, s) \<Rightarrow> Inr \<lparr>result = b, final = s\<rparr>
           | Inl (e, s) \<Rightarrow>
               (case print_message w (Error name e) s of
                  Inl (e', s') \<Rightarrow> Inl e'
                | Inr s' \<Rightarrow> Inr \<lparr>result = False, final = s'\<rparr>)))"

section \<open>The scheduler: the loop of \<open>main\<close>\<close>

text \<open>
  \<open>main\<close> submits one call of \<open>test_channel\<close> per entry, with \<open>timeout=4\<close>,
  \<open>grace_period=1\<close> and \<open>extended_check=2\<close> (line 237); entry number \<open>i\<close> meets the
  world \<open>worlds i\<close>. A future holds what its call returned or the exception it raised.
\<close>

definition submit_all ::
  "(nat \<Rightarrow> world) \<Rightarrow> (str \<times> str) list \<Rightarrow> (exn + (str \<times> str \<times> bool) session) list" where
  "submit_all worlds entries =
     map (\<lambda>(i, (name, url)). test_channel (worlds i) name url 4000 1000 2000)
       (enumerate 0 entries)"

record tally =
  working_channels :: "str \<rightharpoonup> str"
  not_working_channels :: "str \<rightharpoonup> str"
  log_file :: "(str \<times> str \<times> bool) list"    \<comment> \<open>the records \<open>log_result\<close> has appended\<close>

definition empty_tally :: tally where
  "empty_tally = \<lparr>working_channels = Map.empty, not_working_channels = Map.empty,
     log_file = []\<rparr>"

text \<open>\<open>log_result\<close> (lines 258-262) appends one record to the log file.\<close>

definition log_result ::
  "str \<Rightarrow> str \<Rightarrow> bool \<Rightarrow> (str \<times> str \<times> bool) list \<Rightarrow> (str \<times> str \<times> bool) list" where
  "log_result name url res log = log @ [(name, url, res)]"

text \<open>\<open>future.result()\<close>: the value the call returned, or its exception raised again.\<close>

definition future_result ::
  "exn + (str \<times> str \<times> bool) session \<Rightarrow> exn + (str \<times> str \<times> bool)" where
  "future_result future = (case future of Inl e \<Rightarrow> Inl e | Inr ses \<Rightarrow> Inr (result ses))"

text \<open>
  The loop over \<open>as_completed\<close> (lines 241-248), given the futures in the order in which
  they complete. Nothing in \<open>main\<close> catches what \<open>future.result()\<close> raises: \<open>Inl e\<close> is
  \<open>main\<close> ending with the exception \<open>e\<close>.
\<close>

fun collect :: "(exn + (str \<times> str \<times> bool) session) list \<Rightarrow> tally \<Rightarrow> exn + tally" where
  "collect [] t = Inr t"
| "collect (future # rest) t =
     (case future_result future of
        Inl e \<Rightarrow> Inl e
      | Inr (name, url, res) \<Rightarrow>
          collect rest
            ((if res then t\<lparr>working_channels := (working_channels t)(name \<mapsto> url)\<rparr>
              else t\<lparr>not_working_channels := (not_working_channels t)(name \<mapsto> url)\<rparr>)
             \<lparr>log_file := log_result name url res (log_file t)\<rparr>))"

section \<open>Notions used in the statements\<close>

text \<open>Every \<open>print\<close> of the session succeeds.\<close>

definition prints_succeed :: "world \<Rightarrow> bool" where
  "prints_succeed w \<longleftrightarrow> (\<forall>i. print_raises w i = None)"

text \<open>The exception that \<open>Popen\<close> or \<open>Thread.start\<close> raises, if any: \<open>Popen\<close> comes
  first.\<close>

definition raised :: "world \<Rightarrow> exn option" where
  "raised w = (case popen_raises w of Some e \<Rightarrow> Some e | None \<Rightarrow> start_raises w)"

text \<open>
  The state of \<open>test_channel\<close> when its main loop is over, and when both polling
  phases are over and the termination block is reached.
\<close>

definition main_phase :: "world \<Rightarrow> str \<Rightarrow> int \<Rightarrow> int \<Rightarrow> state" where
  "main_phase w name timeout grace_period =
     main_loop success_keywords connecting_keywords w timeout grace_period (started name)"

text \<open>The extended phase when its \<open>print\<close> succeeds.\<close>

definition extended_wait :: "str list \<Rightarrow> world \<Rightarrow> int \<Rightarrow> state \<Rightarrow> state" where
  "extended_wait sk w extended_check s =
     (if connection_detected s \<and> \<not> success_detected s then
        extended_loop sk w (now s) extended_check (s\<lparr>printed := printed s @ [Waiting]\<rparr>)
      else s)"

definition polling_done :: "world \<Rightarrow> str \<Rightarrow> int \<Rightarrow> int \<Rightarrow> int \<Rightarrow> state" where
  "polling_done w name timeout grace_period extended_check =
     extended_wait success_keywords w extended_check (main_phase w name timeout grace_period)"

text \<open>The message of the verdict branch taken in state \<open>s\<close>.\<close>

definition verdict_message :: "str \<Rightarrow> state \<Rightarrow> message" where
  "verdict_message name s =
     (if success_detected s then Success name
      else if connection_detected s then Maybe name else Fail name)"

text \<open>A line with a success (connecting) keyword is among the accumulated lines at
  time \<open>t\<close>.\<close>

definition success_seen :: "world \<Rightarrow> int \<Rightarrow> bool" where
  "success_seen w t = list_ex (any_in success_keywords) (output_lines w t)"

definition connection_seen :: "world \<Rightarrow> int \<Rightarrow> bool" where
  "connection_seen w t = list_ex (any_in connecting_keywords) (output_lines w t)"

text \<open>The time of the \<open>k\<close>-th polling tick after the clock reading \<open>t0\<close>.\<close>

definition tick :: "int \<Rightarrow> nat \<Rightarrow> int" where
  "tick t0 k = t0 + 200 * int k"

text \<open>
  A world for examples: nothing raises, the process starts, writes nothing, never
  exits on its own, and exits at once when it receives \<open>SIGTERM\<close>.
\<close>

definition quiet_world :: world where
  "quiet_world = \<lparr>popen_raises = None, start_raises = None, print_raises = (\<lambda>i. None),
     stderr_feed = [], exit_at = None, windows = False, sigterm_delay = Some 0\<rparr>"

section \<open>Properties of the playlist parser\<close>

subsection \<open>Strings\<close>

lemma isspace_newline: "isspace newline"
  by (simp add: isspace_def newline_def)

lemma ascii_http: "ascii ''http'' = [104, 116, 116, 112]"
  by (simp add: ascii_def)

lemma ascii_extinf: "ascii ''#EXTINF:'' = [35, 69, 88, 84, 73, 78, 70, 58]"
  by (simp add: ascii_def)

lemma url_not_extinf: "startswith s (ascii ''http'') \<Longrightarrow> \<not> startswith s (ascii ''#EXTINF:'')"
  by (cases s) (auto simp: startswith_def ascii_http ascii_extinf)

lemma strip_keeps:
  assumes "s \<noteq> []" "\<not> isspace (hd s)" "\<not> isspace (last s)"
  shows "strip s = s"
proof -
  have a: "dropWhile isspace s = s" using assms by (cases s) auto
  have "rev s \<noteq> []" "\<not> isspace (hd (rev s))" using assms by (auto simp: hd_rev)
  then have b: "dropWhile isspace (rev s) = rev s" by (cases "rev s") auto
  show ?thesis by (simp add: strip_def a b)
qed

lemma strip_trailing_newline:
  assumes "s \<noteq> []" "\<not> isspace (hd s)" "\<not> isspace (last s)"
  shows "strip (s @ [newline]) = s"
proof -
  have a: "dropWhile isspace (s @ [newline]) = s @ [newline]" using assms by (cases s) auto
  have "rev s \<noteq> []" "\<not> isspace (hd (rev s))" using assms by (auto simp: hd_rev)
  then have b: "dropWhile isspace (rev s) = rev s" by (cases "rev s") auto
  show ?thesis by (simp add: strip_def a b isspace_newline)
qed

lemma set_strip: "set (strip s) \<subseteq> set s"
proof -
  have "set (strip s) = set (dropWhile isspace (rev (dropWhile isspace s)))"
    by (simp add: strip_def)
  also have "\<dots> \<subseteq> set (rev (dropWhile isspace s))" by (auto dest: set_dropWhileD)
  also have "\<dots> \<subseteq> set s" by (auto dest: set_dropWhileD)
  finally show ?thesis .
qed

subsection \<open>The regular expression\<close>

lemma re_search_no_comma: "comma \<notin> set s \<Longrightarrow> re_search_comma s = None"
  by (induction s) auto

lemma re_search_first_comma:
  assumes "comma \<notin> set pre" "rest \<noteq> []" "newline \<notin> set rest"
  shows "re_search_comma (pre @ comma # rest) = Some rest"
  using assms
proof (induction pre)
  case Nil
  then have "takeWhile (\<lambda>d. d \<noteq> newline) rest = rest"
    by (auto simp: takeWhile_eq_all_conv)
  then show ?case using Nil(2) by (simp del: takeWhile_eq_all_conv)
next
  case (Cons c pre)
  then show ?case by simp
qed

subsection \<open>One step of the loop\<close>

lemma parse_loop_extinf:
  assumes "extinf_line l" "re_search_comma (strip l) = Some g"
  shows "parse_loop cur (l # ls) = parse_loop (strip g) ls"
  using assms by (simp add: extinf_line_def)

lemma parse_loop_extinf_none:
  assumes "extinf_line l" "re_search_comma (strip l) = None"
  shows "parse_loop cur (l # ls) = parse_loop cur ls"
  using assms by (simp add: extinf_line_def)

lemma parse_loop_url:
  assumes "url_line l"
  shows "parse_loop cur (l # ls) = (cur, strip l) # parse_loop cur ls"
  using assms url_not_extinf[of "strip l"] by (simp add: url_line_def)

lemma parse_loop_other:
  assumes "\<not> extinf_line l" "\<not> url_line l"
  shows "parse_loop cur (l # ls) = parse_loop cur ls"
  using assms by (simp add: url_line_def extinf_line_def)

lemma parse_loop_meta_url:
  assumes "extinf_line l" and "strip l = pre @ comma # rest" and "comma \<notin> set pre"
    and "rest \<noteq> []" and "newline \<notin> set rest" and "url_line u"
  shows "parse_loop cur (l # u # ls) = (strip rest, strip u) # parse_loop (strip rest) ls"
proof -
  have "re_search_comma (strip l) = Some rest"
    using assms(2-5) by (simp add: re_search_first_comma)
  then have "parse_loop cur (l # u # ls) = parse_loop (strip rest) (u # ls)"
    using assms(1) by (rule parse_loop_extinf[rotated])
  then show ?thesis using assms(6) by (simp only: parse_loop_url)
qed

subsection \<open>Playlists made of pairs\<close>

lemma strip_extinf_text:
  assumes "valid_name n"
  shows "strip (extinf_text a n) = ascii ''#EXTINF:'' @ a @ comma # n"
proof -
  let ?s = "ascii ''#EXTINF:'' @ a @ comma # n"
  have 1: "?s \<noteq> []" by simp
  have 2: "\<not> isspace (hd ?s)" by (simp add: ascii_extinf isspace_def)
  have 3: "\<not> isspace (last ?s)" using assms by (simp add: valid_name_def)
  have "extinf_text a n = ?s @ [newline]" by (simp add: extinf_text_def)
  then show ?thesis using strip_trailing_newline[OF 1 2 3] by simp
qed

lemma valid_url_nonempty: "valid_url u \<Longrightarrow> u \<noteq> [] \<and> \<not> isspace (hd u)"
  by (cases u) (auto simp: valid_url_def startswith_def ascii_http isspace_def)

lemma strip_url_text:
  assumes "valid_url u"
  shows "strip (url_text u) = u"
  using assms valid_url_nonempty[OF assms]
  by (simp add: url_text_def strip_trailing_newline valid_url_def)

lemma url_line_url_text: "valid_url u \<Longrightarrow> url_line (url_text u)"
  by (simp add: url_line_def strip_url_text) (simp add: valid_url_def)

lemma parse_loop_skip:
  assumes "list_all other_line hdr"
  shows "parse_loop cur (hdr @ ls) = parse_loop cur ls"
  using assms
  by (induction hdr) (simp_all add: parse_loop_other other_line_def del: parse_loop.simps(2))

lemma parse_loop_item:
  assumes "valid_item it"
  shows "parse_loop cur (item_text it @ ls) = (title it, address it) # parse_loop (title it) ls"
proof -
  have v: "comma \<notin> set (attrs it)" "valid_name (title it)" "valid_url (address it)"
    "list_all other_line (between it)" "list_all other_line (trailing it)"
    using assms by (simp_all add: valid_item_def)
  have s: "strip (extinf_text (attrs it) (title it)) =
      (ascii ''#EXTINF:'' @ attrs it) @ comma # title it"
    using v(2) by (simp add: strip_extinf_text)
  have e: "extinf_line (extinf_text (attrs it) (title it))"
    by (simp add: extinf_line_def strip_extinf_text[OF v(2)] startswith_def)
  have c: "comma \<notin> set (ascii ''#EXTINF:'' @ attrs it)"
    using v(1) by (simp add: ascii_extinf comma_def)
  have n: "title it \<noteq> []" "newline \<notin> set (title it)" "strip (title it) = title it"
    using v(2) by (auto simp: valid_name_def intro: strip_keeps)
  have "re_search_comma (strip (extinf_text (attrs it) (title it))) = Some (title it)"
    unfolding s using c n(1,2) by (rule re_search_first_comma)
  then have 1: "parse_loop cur (item_text it @ ls) =
      parse_loop (title it) (between it @ url_text (address it) # trailing it @ ls)"
    using parse_loop_extinf[OF e, of "title it" cur] n(3)
    by (simp add: item_text_def del: parse_loop.simps(2))
  have 2: "parse_loop (title it) (between it @ url_text (address it) # trailing it @ ls) =
      parse_loop (title it) (url_text (address it) # trailing it @ ls)"
    using v(4) by (rule parse_loop_skip)
  have 3: "parse_loop (title it) (url_text (address it) # trailing it @ ls) =
      (title it, address it) # parse_loop (title it) (trailing it @ ls)"
    using parse_loop_url[OF url_line_url_text[OF v(3)]] strip_url_text[OF v(3)]
    by (simp del: parse_loop.simps(2))
  have 4: "parse_loop (title it) (trailing it @ ls) = parse_loop (title it) ls"
    using v(5) by (rule parse_loop_skip)
  show ?thesis unfolding 1 2 3 4 ..
qed

lemma parse_loop_items:
  assumes "list_all valid_item items"
  shows "parse_loop cur (concat (map item_text items) @ ls) =
           map (\<lambda>it. (title it, address it)) items @
           parse_loop (if items = [] then cur else title (last items)) ls"
  using assms
proof (induction items arbitrary: cur)
  case Nil
  then show ?case by simp
next
  case (Cons it items)
  then have v: "valid_item it" and vs: "list_all valid_item items" by simp_all
  have "parse_loop cur (concat (map item_text (it # items)) @ ls) =
          parse_loop cur (item_text it @ (concat (map item_text items) @ ls))"
    by (simp del: parse_loop.simps(2))
  also have "\<dots> = (title it, address it) #
          parse_loop (title it) (concat (map item_text items) @ ls)"
    using v by (rule parse_loop_item)
  finally show ?case using Cons.IH[OF vs, of "title it"] by simp
qed

lemma parse_loop_bare:
  assumes "list_all valid_bare us"
  shows "parse_loop cur (concat (map bare_text us) @ ls) =
           map (\<lambda>b. (cur, fst b)) us @ parse_loop cur ls"
  using assms
proof (induction us)
  case Nil
  then show ?case by simp
next
  case (Cons b us)
  obtain u tr where b: "b = (u, tr)" by (cases b)
  from Cons.prems have vb: "valid_bare b" and vs: "list_all valid_bare us" by simp_all
  from vb have v: "valid_url u" "list_all other_line tr" by (simp_all add: b valid_bare_def)
  have "parse_loop cur (concat (map bare_text (b # us)) @ ls) =
          parse_loop cur (url_text u # tr @ (concat (map bare_text us) @ ls))"
    by (simp add: b bare_text_def del: parse_loop.simps(2))
  also have "\<dots> = (cur, u) # parse_loop cur (tr @ (concat (map bare_text us) @ ls))"
    using parse_loop_url[OF url_line_url_text[OF v(1)]] strip_url_text[OF v(1)]
    by (simp del: parse_loop.simps(2))
  also have "parse_loop cur (tr @ (concat (map bare_text us) @ ls)) =
          parse_loop cur (concat (map bare_text us) @ ls)"
    using v(2) by (rule parse_loop_skip)
  finally show ?case using Cons.IH[OF vs] by (simp add: b)
qed

lemma no_comma_sets_no_name: "comma \<notin> set l \<Longrightarrow> \<not> sets_name l"
proof -
  assume "comma \<notin> set l"
  with set_strip[of l] have "comma \<notin> set (strip l)" by auto
  then have "re_search_comma (strip l) = None" by (rule re_search_no_comma)
  then show ?thesis by (simp add: sets_name_def)
qed

lemma parse_loop_keeps_name:
  assumes "list_all (\<lambda>l. \<not> sets_name l) ls"
  shows "parse_loop cur (ls @ rest) =
           map (\<lambda>l. (cur, strip l)) (filter url_line ls) @ parse_loop cur rest"
  using assms
proof (induction ls)
  case Nil
  then show ?case by simp
next
  case (Cons l ls)
  then have IH: "parse_loop cur (ls @ rest) =
      map (\<lambda>l. (cur, strip l)) (filter url_line ls) @ parse_loop cur rest"
    and n: "\<not> sets_name l" by simp_all
  consider (url) "url_line l" | (meta) "extinf_line l" "\<not> url_line l"
    | (other) "\<not> extinf_line l" "\<not> url_line l" by blast
  then show ?case
  proof cases
    case url
    then show ?thesis using IH by (simp add: parse_loop_url del: parse_loop.simps)
  next
    case meta
    then have "re_search_comma (strip l) = None" using n by (simp add: sets_name_def)
    then have "parse_loop cur ((l # ls) @ rest) = parse_loop cur (ls @ rest)"
      using meta(1) by (simp add: parse_loop_extinf_none del: parse_loop.simps)
    then show ?thesis using IH meta(2) by simp
  next
    case other
    then have "parse_loop cur ((l # ls) @ rest) = parse_loop cur (ls @ rest)"
      by (simp add: parse_loop_other del: parse_loop.simps)
    then show ?thesis using IH other(2) by simp
  qed
qed

subsection \<open>The claims about the parser\<close>

text \<open>
  C7. A playlist made of \<open>N\<close> valid metadata/URL pairs parses to exactly those \<open>N\<close>
  entries, in file order, each with the name of its metadata line. Lines that are
  neither metadata nor URL lines (a header, comments, option lines, blank lines) may
  stand anywhere: in front, between a metadata line and its URL line, and after a URL
  line; they add nothing and do not change the name. URL lines that stand before the
  first metadata line get the name \<open>Unknown\<close>.
\<close>

theorem playlist_round_trip:
  assumes "list_all other_line hdr" and "list_all valid_bare us"
    and "list_all valid_item items"
  shows "parse_m3u_lines (hdr @ concat (map bare_text us) @ concat (map item_text items)) =
           map (\<lambda>b. (ascii ''Unknown'', fst b)) us @
           map (\<lambda>it. (title it, address it)) items"
proof -
  have "parse_m3u_lines (hdr @ concat (map bare_text us) @ concat (map item_text items)) =
      parse_loop (ascii ''Unknown'') (concat (map bare_text us) @ concat (map item_text items))"
    unfolding parse_m3u_lines_def using assms(1) by (rule parse_loop_skip)
  also have "\<dots> = map (\<lambda>b. (ascii ''Unknown'', fst b)) us @
      parse_loop (ascii ''Unknown'') (concat (map item_text items) @ [])"
    using parse_loop_bare[OF assms(2), of "ascii ''Unknown''" "concat (map item_text items)"]
    by simp
  also have "parse_loop (ascii ''Unknown'') (concat (map item_text items) @ []) =
      map (\<lambda>it. (title it, address it)) items"
    using parse_loop_items[OF assms(3), of "ascii ''Unknown''" "[]"] by simp
  finally show ?thesis .
qed

text \<open>
  C7, at an example: a header, a URL without metadata followed by a blank line, an
  entry with an option line between its metadata line and its URL and a blank line
  after it, and an entry whose title contains a comma, followed by a comment.
\<close>

theorem playlist_round_trip_witness:
  "parse_m3u_lines
     ([ascii ''#EXTM3U'' @ [newline]] @
      concat (map bare_text [(ascii ''http://x'', [[newline]])]) @
      concat (map item_text
        [\<lparr>attrs = ascii ''-1'', title = ascii ''One'',
          between = [ascii ''#EXTVLCOPT:http-user-agent=x'' @ [newline]],
          address = ascii ''http://a'', trailing = [[newline]]\<rparr>,
         \<lparr>attrs = ascii ''-1 id=b'', title = ascii ''Two, HD'', between = [],
          address = ascii ''http://b'', trailing = [ascii ''# end'' @ [newline]]\<rparr>])) =
   [(ascii ''Unknown'', ascii ''http://x''), (ascii ''One'', ascii ''http://a''),
    (ascii ''Two, HD'', ascii ''http://b'')]"
proof -
  have o: "other_line (ascii ''#EXTM3U'' @ [newline])" "other_line [newline]"
    "other_line (ascii ''#EXTVLCOPT:http-user-agent=x'' @ [newline])"
    "other_line (ascii ''# end'' @ [newline])"
    by (simp_all add: other_line_def extinf_line_def url_line_def ascii_def strip_def
        isspace_def startswith_def newline_def)
  have u: "valid_url (ascii ''http://x'')" "valid_url (ascii ''http://a'')"
    "valid_url (ascii ''http://b'')"
    by (simp_all add: valid_url_def ascii_def isspace_def startswith_def)
  have n: "valid_name (ascii ''One'')" "valid_name (ascii ''Two, HD'')"
    "comma \<notin> set (ascii ''-1'')" "comma \<notin> set (ascii ''-1 id=b'')"
    by (simp_all add: valid_name_def ascii_def isspace_def comma_def newline_def)
  have 1: "list_all other_line [ascii ''#EXTM3U'' @ [newline]]" using o by simp
  have 2: "list_all valid_bare [(ascii ''http://x'', [[newline]])]"
    using o u by (simp add: valid_bare_def)
  have 3: "list_all valid_item
        [\<lparr>attrs = ascii ''-1'', title = ascii ''One'',
          between = [ascii ''#EXTVLCOPT:http-user-agent=x'' @ [newline]],
          address = ascii ''http://a'', trailing = [[newline]]\<rparr>,
         \<lparr>attrs = ascii ''-1 id=b'', title = ascii ''Two, HD'', between = [],
          address = ascii ''http://b'', trailing = [ascii ''# end'' @ [newline]]\<rparr>]"
    using o u n by (simp add: valid_item_def)
  show ?thesis using playlist_round_trip[OF 1 2 3] by simp
qed

text \<open>
  C8 (the claim as stated fails). The name in \<open>#EXTINF:-1,News, 24\<close> is \<open>News, 24\<close>,
  the text after the first comma, and not \<open>24\<close>, the text after the last one.
\<close>

theorem name_after_last_comma_counterexample:
  "parse_m3u_lines [ascii ''#EXTINF:-1,News, 24'', ascii ''http://a''] =
     [(ascii ''News, 24'', ascii ''http://a'')] \<and>
   strip (after_last_comma (strip (ascii ''#EXTINF:-1,News, 24''))) = ascii ''24'' \<and>
   ascii ''News, 24'' \<noteq> ascii ''24''"
  by (simp add: parse_m3u_lines_def after_last_comma_def ascii_def strip_def isspace_def
      startswith_def comma_def newline_def)

text \<open>
  C8 (as amended). When the stripped metadata line begins with \<open>#EXTINF:\<close> and its
  first comma is followed by at least one character (none of them a newline), the name
  bound to the URL line that follows is the text after that FIRST comma, stripped of
  surrounding whitespace; it also stays the current name for the lines after it.
\<close>

theorem name_after_first_comma:
  assumes "extinf_line l" and "strip l = pre @ comma # rest" and "comma \<notin> set pre"
    and "rest \<noteq> []" and "newline \<notin> set rest" and "url_line u"
  shows "parse_loop cur (l # u # ls) = (strip rest, strip u) # parse_loop (strip rest) ls"
  using assms by (rule parse_loop_meta_url)

theorem name_after_first_comma_witness:
  "parse_loop (ascii ''Unknown'') [ascii ''#EXTINF:-1, News, 24'', ascii ''http://a''] =
     [(ascii ''News, 24'', ascii ''http://a'')]"
proof -
  let ?l = "ascii ''#EXTINF:-1, News, 24''" and ?u = "ascii ''http://a''"
  have 1: "extinf_line ?l"
    by (simp add: extinf_line_def ascii_def strip_def isspace_def startswith_def)
  have 2: "strip ?l = ascii ''#EXTINF:-1'' @ comma # ascii '' News, 24''"
    by (simp add: ascii_def strip_def isspace_def comma_def)
  have 3: "comma \<notin> set (ascii ''#EXTINF:-1'')"
    by (simp add: ascii_def comma_def)
  have 4: "ascii '' News, 24'' \<noteq> []" by (simp add: ascii_def)
  have 5: "newline \<notin> set (ascii '' News, 24'')" by (simp add: ascii_def newline_def)
  have 6: "url_line ?u"
    by (simp add: url_line_def ascii_def strip_def isspace_def startswith_def)
  have 7: "strip (ascii '' News, 24'') = ascii ''News, 24''" "strip ?u = ?u"
    by (simp_all add: ascii_def strip_def isspace_def)
  show ?thesis
    using name_after_first_comma[OF 1 2 3 4 5 6, of "ascii ''Unknown''" "[]"] by (simp add: 7)
qed

text \<open>
  C10. A line without a comma, a \<open>#EXTINF:\<close> line in particular, never sets the name.
  Over any run of lines none of which sets the name (URL lines, \<open>#EXTINF:\<close> lines
  without a match, blank lines, comments, anything else), every URL line of the run
  gets the name that was current before the run, whatever that name is, and that name
  is still current after the run: nothing but a matching \<open>#EXTINF:\<close> line changes the
  name, and using it does not clear it. After a matching metadata line the name is the
  one that line sets.
\<close>

theorem name_inherited:
  "(\<forall>l. comma \<notin> set l \<longrightarrow> \<not> sets_name l) \<and>
   (list_all (\<lambda>l. \<not> sets_name l) ls \<longrightarrow>
      parse_loop cur (ls @ rest) =
        map (\<lambda>l. (cur, strip l)) (filter url_line ls) @ parse_loop cur rest) \<and>
   (extinf_line m \<and> re_search_comma (strip m) = Some g \<and> list_all (\<lambda>l. \<not> sets_name l) ls \<longrightarrow>
      parse_loop cur (m # ls @ rest) =
        map (\<lambda>l. (strip g, strip l)) (filter url_line ls) @ parse_loop (strip g) rest)"
proof -
  have "parse_loop cur (m # ls @ rest) =
        map (\<lambda>l. (strip g, strip l)) (filter url_line ls) @ parse_loop (strip g) rest"
    if "extinf_line m" "re_search_comma (strip m) = Some g" "list_all (\<lambda>l. \<not> sets_name l) ls"
    using parse_loop_extinf[OF that(1,2), of cur "ls @ rest"]
      parse_loop_keeps_name[OF that(3), of "strip g" rest]
    by (simp del: parse_loop.simps(2))
  then show ?thesis
    using no_comma_sets_no_name parse_loop_keeps_name by blast
qed

text \<open>
  C10, at an example: after the metadata line of \<open>One\<close> come a URL line, a blank line,
  a \<open>#EXTINF:\<close> line without a comma, a comment and two more URL lines; all three URLs
  are named \<open>One\<close>.
\<close>

theorem name_inherited_witness:
  "parse_m3u_lines [ascii ''#EXTINF:-1,One'', ascii ''http://a'', [newline],
      ascii ''#EXTINF:-1'', ascii ''# note'', ascii ''http://b'', ascii ''http://c''] =
     [(ascii ''One'', ascii ''http://a''), (ascii ''One'', ascii ''http://b''),
      (ascii ''One'', ascii ''http://c'')]"
proof -
  let ?ls = "[ascii ''http://a'', [newline], ascii ''#EXTINF:-1'', ascii ''# note'',
      ascii ''http://b'', ascii ''http://c'']"
  have u: "url_line (ascii ''http://a'')" "url_line (ascii ''http://b'')"
    "url_line (ascii ''http://c'')" "\<not> url_line (ascii ''#EXTINF:-1'')"
    "\<not> url_line [newline]" "\<not> url_line (ascii ''# note'')"
    by (simp_all add: url_line_def ascii_def strip_def isspace_def startswith_def newline_def)
  have c: "comma \<notin> set (ascii ''http://a'')" "comma \<notin> set (ascii ''http://b'')"
    "comma \<notin> set (ascii ''http://c'')" "comma \<notin> set (ascii ''#EXTINF:-1'')"
    "comma \<notin> set [newline]" "comma \<notin> set (ascii ''# note'')"
    by (simp_all add: ascii_def comma_def newline_def)
  have s: "strip (ascii ''http://a'') = ascii ''http://a''"
    "strip (ascii ''http://b'') = ascii ''http://b''"
    "strip (ascii ''http://c'') = ascii ''http://c''"
    by (simp_all add: ascii_def strip_def isspace_def)
  have m: "extinf_line (ascii ''#EXTINF:-1,One'')"
    "re_search_comma (strip (ascii ''#EXTINF:-1,One'')) = Some (ascii ''One'')"
    "strip (ascii ''One'') = ascii ''One''"
    by (simp_all add: extinf_line_def ascii_def strip_def isspace_def startswith_def
        comma_def newline_def)
  note main = name_inherited[of ?ls "ascii ''Unknown''" "[]" "ascii ''#EXTINF:-1,One''"
      "ascii ''One''"]
  have "list_all (\<lambda>l. \<not> sets_name l) ?ls" using main c by simp
  then have "parse_loop (ascii ''Unknown'') (ascii ''#EXTINF:-1,One'' # ?ls @ []) =
      map (\<lambda>l. (strip (ascii ''One''), strip l)) (filter url_line ?ls) @
      parse_loop (strip (ascii ''One'')) []"
    using main m(1,2) by blast
  then show ?thesis using u s m(3) by (simp add: parse_m3u_lines_def del: parse_loop.simps(2))
qed

section \<open>Properties of the classifier\<close>

subsection \<open>The scans\<close>

lemma scan_main_frame [simp]:
  "now (scan_main sk ck ls s) = now s"
  "spawned (scan_main sk ck ls s) = spawned s"
  "stopped (scan_main sk ck ls s) = stopped s"
  "kill_sent (scan_main sk ck ls s) = kill_sent s"
  "printed (scan_main sk ck ls s) = printed s"
  by (induction ls arbitrary: s) (simp_all add: Let_def)

lemma scan_main_success:
  "success_detected (scan_main sk ck ls s) \<longleftrightarrow>
     success_detected s \<or> list_ex (any_in sk) ls"
  by (induction ls arbitrary: s) (auto simp: Let_def)

lemma scan_main_connection:
  "connection_detected (scan_main sk ck ls s) \<longleftrightarrow>
     connection_detected s \<or> list_ex (any_in ck) ls"
  by (induction ls arbitrary: s) (auto simp: Let_def)

lemma scan_extended_frame [simp]:
  "now (scan_extended sk ls s) = now s"
  "spawned (scan_extended sk ls s) = spawned s"
  "stopped (scan_extended sk ls s) = stopped s"
  "kill_sent (scan_extended sk ls s) = kill_sent s"
  "printed (scan_extended sk ls s) = printed s"
  "connection_detected (scan_extended sk ls s) = connection_detected s"
  by (induction ls) simp_all

lemma scan_extended_success:
  "success_detected (scan_extended sk ls s) \<longleftrightarrow>
     success_detected s \<or> list_ex (any_in sk) ls"
  by (induction ls) auto

lemma self_exited_mono: "self_exited w t \<Longrightarrow> t \<le> t' \<Longrightarrow> self_exited w t'"
  by (auto simp: self_exited_def split: option.splits)

lemma list_ex_output_lines:
  "list_ex P (output_lines w t) \<longleftrightarrow> (\<exists>x \<in> set (stderr_feed w). fst x \<le> t \<and> P (snd x))"
  by (force simp: output_lines_def list_ex_iff)

lemma output_lines_mono:
  assumes "t \<le> t'" "list_ex P (output_lines w t)"
  shows "list_ex P (output_lines w t')"
proof -
  from assms(2) obtain x where "x \<in> set (stderr_feed w)" "fst x \<le> t" "P (snd x)"
    unfolding list_ex_output_lines by blast
  with assms(1) have "x \<in> set (stderr_feed w) \<and> fst x \<le> t' \<and> P (snd x)" by simp
  then show ?thesis unfolding list_ex_output_lines by blast
qed

subsection \<open>Unfolding the main loop\<close>

lemma main_loop_stop:
  "\<not> (now s < timeout \<and> running w s) \<Longrightarrow> main_loop sk ck w timeout grace s = s"
  by (subst main_loop.simps) auto

lemma main_loop_break:
  assumes "now s < timeout" "running w s"
    and "success_detected (scan_main sk ck (output_lines w (now s)) s)" "grace \<le> now s"
  shows "main_loop sk ck w timeout grace s = scan_main sk ck (output_lines w (now s)) s"
  using assms by (subst main_loop.simps) (simp add: Let_def)

lemma main_loop_step:
  assumes "now s < timeout" "running w s"
    and "\<not> (success_detected (scan_main sk ck (output_lines w (now s)) s) \<and> grace \<le> now s)"
  shows "main_loop sk ck w timeout grace s =
           main_loop sk ck w timeout grace
             ((scan_main sk ck (output_lines w (now s)) s)\<lparr>now := now s + 200\<rparr>)"
  using assms by (subst main_loop.simps) (auto simp: Let_def)

lemma main_loop_frame [simp]:
  "spawned (main_loop sk ck w timeout grace s) = spawned s"
  "stopped (main_loop sk ck w timeout grace s) = stopped s"
  "printed (main_loop sk ck w timeout grace s) = printed s"
  "kill_sent (main_loop sk ck w timeout grace s) = kill_sent s"
proof (induction sk ck w timeout grace s rule: main_loop.induct)
  case (1 sk ck w timeout grace s)
  {
    case 4
    show ?case
      using "1.IH"(4)[OF _ _ refl refl]
      by (subst main_loop.simps) (simp add: Let_def)
  next
    case 1
    show ?case
      using "1.IH"(1)[OF _ _ refl refl] 
      by (subst main_loop.simps) (simp add: Let_def)
  next
    case 2
    show ?case
      using "1.IH"(2)[OF _ _ refl refl] 
      by (subst main_loop.simps) (simp add: Let_def)
  next
    case 3
    show ?case
      using "1.IH"(3)[OF _ _ refl refl] 
      by (subst main_loop.simps) (simp add: Let_def)
  }
qed

text \<open>A rule for reasoning along the loop: stop, break, or sleep and go round again.\<close>

lemma main_loop_cases:
  obtains (stop) "\<not> (now s < timeout \<and> running w s)"
      "main_loop sk ck w timeout grace s = s"
  | (break) "now s < timeout" "running w s" "grace \<le> now s"
      "success_detected (scan_main sk ck (output_lines w (now s)) s)"
      "main_loop sk ck w timeout grace s = scan_main sk ck (output_lines w (now s)) s"
  | (step) "now s < timeout" "running w s"
      "\<not> (success_detected (scan_main sk ck (output_lines w (now s)) s) \<and> grace \<le> now s)"
      "main_loop sk ck w timeout grace s =
         main_loop sk ck w timeout grace
           ((scan_main sk ck (output_lines w (now s)) s)\<lparr>now := now s + 200\<rparr>)"
  using main_loop_stop[of s timeout w sk ck grace] main_loop_break[of s timeout w sk ck grace]
    main_loop_step[of s timeout w sk ck grace]
  by blast

lemma main_loop_now_mono: "now s \<le> now (main_loop sk ck w timeout grace s)"
proof (induction sk ck w timeout grace s rule: main_loop.induct)
  case (1 sk ck w timeout grace s)
  show ?case
  proof (cases rule: main_loop_cases[of s timeout w sk ck grace])
    case stop
    then show ?thesis by simp
  next
    case break
    then show ?thesis by simp
  next
    case step
    then show ?thesis using "1.IH"[OF _ _ refl refl] by simp
  qed
qed

lemma main_loop_success_mono:
  "success_detected s \<Longrightarrow> success_detected (main_loop sk ck w timeout grace s)"
proof (induction sk ck w timeout grace s rule: main_loop.induct)
  case (1 sk ck w timeout grace s)
  show ?case
  proof (cases rule: main_loop_cases[of s timeout w sk ck grace])
    case stop
    then show ?thesis using "1.prems" by simp
  next
    case break
    then show ?thesis by simp
  next
    case step
    then show ?thesis using "1.IH"[OF _ _ refl refl] "1.prems"
      by (simp add: scan_main_success)
  qed
qed

lemma main_loop_connection_mono:
  "connection_detected s \<Longrightarrow> connection_detected (main_loop sk ck w timeout grace s)"
proof (induction sk ck w timeout grace s rule: main_loop.induct)
  case (1 sk ck w timeout grace s)
  show ?case
  proof (cases rule: main_loop_cases[of s timeout w sk ck grace])
    case stop
    then show ?thesis using "1.prems" by simp
  next
    case break
    then show ?thesis using "1.prems" by (simp add: scan_main_connection)
  next
    case step
    then show ?thesis using "1.IH"[OF _ _ refl refl] "1.prems"
      by (simp add: scan_main_connection)
  qed
qed

text \<open>
  A tick \<open>t\<close> of the loop that lies before the timeout, at which the process has not
  exited on its own: the loop scans at \<open>t\<close>, unless it has left on success before.
\<close>

lemma main_loop_detects:
  assumes "t = now s + 200 * int k" "t < timeout"
    and "spawned s" "\<not> stopped s" "\<not> self_exited w t"
    and "list_ex (any_in sk) (output_lines w t)"
  shows "success_detected (main_loop sk ck w timeout grace s)"
  using assms
proof (induction sk ck w timeout grace s arbitrary: k rule: main_loop.induct)
  case (1 sk ck w timeout grace s)
  have run: "running w s"
    using "1.prems" self_exited_mono[of w "now s" t] by (auto simp: running_def)
  show ?case
  proof (cases rule: main_loop_cases[of s timeout w sk ck grace])
    case stop
    then show ?thesis using run "1.prems"(1,2) by simp
  next
    case break
    then show ?thesis by simp
  next
    case step
    show ?thesis
    proof (cases k)
      case 0
      then have "now s = t" using "1.prems"(1) by simp
      then have "success_detected (scan_main sk ck (output_lines w (now s)) s)"
        using "1.prems" by (simp add: scan_main_success)
      then show ?thesis by (simp only: step(4)) (simp add: main_loop_success_mono)
    next
      case (Suc k')
      then have "t = now s + 200 + 200 * int k'"
        using "1.prems"(1) by simp
      then have "success_detected (main_loop sk ck w timeout grace ((scan_main sk ck (output_lines w (now s)) s)\<lparr>now := now s + 200\<rparr>))"
        using step(1,2,3) "1.prems"(2-6) by (intro "1.IH"[OF _ _ refl refl, of k']) simp_all
      then show ?thesis by (simp only: step(4))
    qed
  qed
qed

lemma main_loop_detects_connection:
  assumes "t = now s + 200 * int k" "t < timeout"
    and "spawned s" "\<not> stopped s" "\<not> self_exited w t"
    and "list_ex (any_in ck) (output_lines w t)"
  shows "connection_detected (main_loop sk ck w timeout grace s) \<or>
         success_detected (main_loop sk ck w timeout grace s)"
  using assms
proof (induction sk ck w timeout grace s arbitrary: k rule: main_loop.induct)
  case (1 sk ck w timeout grace s)
  have run: "running w s"
    using "1.prems" self_exited_mono[of w "now s" t] by (auto simp: running_def)
  show ?case
  proof (cases rule: main_loop_cases[of s timeout w sk ck grace])
    case stop
    then show ?thesis using run "1.prems"(1,2) by simp
  next
    case break
    then show ?thesis by simp
  next
    case step
    show ?thesis
    proof (cases k)
      case 0
      then have "now s = t" using "1.prems"(1) by simp
      then have "connection_detected (scan_main sk ck (output_lines w (now s)) s)"
        using "1.prems" by (simp add: scan_main_connection)
      then show ?thesis by (simp only: step(4)) (simp add: main_loop_connection_mono)
    next
      case (Suc k')
      then have "t = now s + 200 + 200 * int k'"
        using "1.prems"(1) by simp
      then have "connection_detected (main_loop sk ck w timeout grace ((scan_main sk ck (output_lines w (now s)) s)\<lparr>now := now s + 200\<rparr>)) \<or> success_detected (main_loop sk ck w timeout grace ((scan_main sk ck (output_lines w (now s)) s)\<lparr>now := now s + 200\<rparr>))"
        using step(1,2,3) "1.prems"(2-6) by (intro "1.IH"[OF _ _ refl refl, of k']) simp_all
      then show ?thesis by (simp only: step(4))
    qed
  qed
qed

lemma main_loop_ticks: "\<exists>k. now (main_loop sk ck w timeout grace s) = now s + 200 * int k"
proof (induction sk ck w timeout grace s rule: main_loop.induct)
  case (1 sk ck w timeout grace s)
  show ?case
  proof (cases rule: main_loop_cases[of s timeout w sk ck grace])
    case stop
    then have "now (main_loop sk ck w timeout grace s) = now s + 200 * int 0" by simp
    then show ?thesis by blast
  next
    case break
    then have "now (main_loop sk ck w timeout grace s) = now s + 200 * int 0" by simp
    then show ?thesis by blast
  next
    case step
    from "1.IH"[OF _ _ refl refl] step(1,2,3)
    obtain k where "now (main_loop sk ck w timeout grace
        ((scan_main sk ck (output_lines w (now s)) s)\<lparr>now := now s + 200\<rparr>)) =
        now s + 200 + 200 * int k"
      by auto
    then have "now (main_loop sk ck w timeout grace s) = now s + 200 * int (Suc k)"
      by (simp only: step(4)) simp
    then show ?thesis by blast
  qed
qed

text \<open>The flag is raised only for a line that is there.\<close>

lemma main_loop_success_sound:
  assumes "success_detected (main_loop sk ck w timeout grace s)"
  shows "success_detected s \<or>
         list_ex (any_in sk) (output_lines w (now (main_loop sk ck w timeout grace s)))"
  using assms
proof (induction sk ck w timeout grace s rule: main_loop.induct)
  case (1 sk ck w timeout grace s)
  show ?case
  proof (cases rule: main_loop_cases[of s timeout w sk ck grace])
    case stop
    then show ?thesis using "1.prems" by simp
  next
    case break
    then show ?thesis by (simp add: scan_main_success)
  next
    case step
    let ?s' = "(scan_main sk ck (output_lines w (now s)) s)\<lparr>now := now s + 200\<rparr>"
    have "success_detected (main_loop sk ck w timeout grace ?s')"
      using "1.prems" by (simp only: step(4))
    then have "success_detected ?s' \<or>
         list_ex (any_in sk) (output_lines w (now (main_loop sk ck w timeout grace ?s')))"
      using step(1,2,3) by (intro "1.IH"[OF _ _ refl refl]) simp_all
    moreover have "now s \<le> now (main_loop sk ck w timeout grace ?s')"
      using main_loop_now_mono[of ?s' sk ck w timeout grace] by simp
    ultimately have "success_detected s \<or>
         list_ex (any_in sk) (output_lines w (now (main_loop sk ck w timeout grace ?s')))"
      using output_lines_mono[of "now s" "now (main_loop sk ck w timeout grace ?s')" "any_in sk" w]
      by (auto simp: scan_main_success)
    then show ?thesis by (simp only: step(4))
  qed
qed

text \<open>The loop ends before the timeout only through one of its two \<open>break\<close>s: the
  process has exited (line 51), or success has been detected and the grace period is
  over (line 61).\<close>

lemma main_loop_early_exit:
  assumes "spawned s" "\<not> stopped s"
    and "now (main_loop sk ck w timeout grace s) < timeout"
  shows "self_exited w (now (main_loop sk ck w timeout grace s)) \<or>
         success_detected (main_loop sk ck w timeout grace s) \<and>
         grace \<le> now (main_loop sk ck w timeout grace s)"
  using assms
proof (induction sk ck w timeout grace s rule: main_loop.induct)
  case (1 sk ck w timeout grace s)
  show ?case
  proof (cases rule: main_loop_cases[of s timeout w sk ck grace])
    case stop
    then show ?thesis using "1.prems" by (auto simp: running_def)
  next
    case break
    then show ?thesis by simp
  next
    case step
    let ?s' = "(scan_main sk ck (output_lines w (now s)) s)\<lparr>now := now s + 200\<rparr>"
    have "now (main_loop sk ck w timeout grace ?s') < timeout"
      using "1.prems"(3) by (simp only: step(4))
    then have "self_exited w (now (main_loop sk ck w timeout grace ?s')) \<or>
         success_detected (main_loop sk ck w timeout grace ?s') \<and>
         grace \<le> now (main_loop sk ck w timeout grace ?s')"
      using step(1,2,3) "1.prems"(1,2) by (intro "1.IH"[OF _ _ refl refl]) simp_all
    then show ?thesis by (simp only: step(4))
  qed
qed

text \<open>Once the process has exited at a tick, the loop is over.\<close>

lemma main_loop_exit_by_exited:
  assumes "t = now s + 200 * int k" "self_exited w t"
  shows "now (main_loop sk ck w timeout grace s) \<le> t"
  using assms
proof (induction sk ck w timeout grace s arbitrary: k rule: main_loop.induct)
  case (1 sk ck w timeout grace s)
  show ?case
  proof (cases rule: main_loop_cases[of s timeout w sk ck grace])
    case stop
    then show ?thesis using "1.prems"(1) by simp
  next
    case break
    then show ?thesis using "1.prems"(1) by simp
  next
    case step
    let ?s' = "(scan_main sk ck (output_lines w (now s)) s)\<lparr>now := now s + 200\<rparr>"
    show ?thesis
    proof (cases k)
      case 0
      then have "now s = t" using "1.prems"(1) by simp
      then have "\<not> running w s" using "1.prems"(2) by (simp add: running_def)
      then show ?thesis using step(2) by simp
    next
      case (Suc k')
      then have "t = now s + 200 + 200 * int k'" using "1.prems"(1) by simp
      then have "now (main_loop sk ck w timeout grace ?s') \<le> t"
        using step(1,2,3) "1.prems"(2)
        by (intro "1.IH"[OF _ _ refl refl, of k']) simp_all
      then show ?thesis by (simp only: step(4))
    qed
  qed
qed

text \<open>Once success has been seen at a tick at or after the grace period, the loop is over.\<close>

lemma main_loop_exit_by:
  assumes "t = now s + 200 * int k" "t < timeout" "grace \<le> t"
    and "success_detected s \<or> list_ex (any_in sk) (output_lines w t)"
  shows "now (main_loop sk ck w timeout grace s) \<le> t"
  using assms
proof (induction sk ck w timeout grace s arbitrary: k rule: main_loop.induct)
  case (1 sk ck w timeout grace s)
  show ?case
  proof (cases rule: main_loop_cases[of s timeout w sk ck grace])
    case stop
    then show ?thesis using "1.prems"(1) by simp
  next
    case break
    then show ?thesis using "1.prems"(1) by simp
  next
    case step
    let ?s' = "(scan_main sk ck (output_lines w (now s)) s)\<lparr>now := now s + 200\<rparr>"
    show ?thesis
    proof (cases k)
      case 0
      then have "now s = t" using "1.prems"(1) by simp
      then have "success_detected (scan_main sk ck (output_lines w (now s)) s) \<and> grace \<le> now s"
        using "1.prems"(3,4) by (simp add: scan_main_success)
      then show ?thesis using step(3) by simp
    next
      case (Suc k')
      then have "t = now s + 200 + 200 * int k'" using "1.prems"(1) by simp
      then have "now (main_loop sk ck w timeout grace ?s') \<le> t"
        using step(1,2,3) "1.prems"(2-4)
        by (intro "1.IH"[OF _ _ refl refl, of k']) (auto simp: scan_main_success)
      then show ?thesis by (simp only: step(4))
    qed
  qed
qed


subsection \<open>The extended loop\<close>

lemma extended_loop_stop:
  "\<not> (now s - extra < ext \<and> running w s) \<Longrightarrow> extended_loop sk w extra ext s = s"
  by (subst extended_loop.simps) auto

lemma extended_loop_break:
  assumes "now s - extra < ext" "running w s"
    and "success_detected (scan_extended sk (output_lines w (now s)) s)"
  shows "extended_loop sk w extra ext s = scan_extended sk (output_lines w (now s)) s"
  using assms by (subst extended_loop.simps) (simp add: Let_def)

lemma extended_loop_step:
  assumes "now s - extra < ext" "running w s"
    and "\<not> success_detected (scan_extended sk (output_lines w (now s)) s)"
  shows "extended_loop sk w extra ext s =
           extended_loop sk w extra ext
             ((scan_extended sk (output_lines w (now s)) s)\<lparr>now := now s + 200\<rparr>)"
  using assms by (subst extended_loop.simps) (auto simp: Let_def)

lemma extended_loop_cases:
  obtains (stop) "\<not> (now s - extra < ext \<and> running w s)"
      "extended_loop sk w extra ext s = s"
  | (break) "now s - extra < ext" "running w s"
      "success_detected (scan_extended sk (output_lines w (now s)) s)"
      "extended_loop sk w extra ext s = scan_extended sk (output_lines w (now s)) s"
  | (step) "now s - extra < ext" "running w s"
      "\<not> success_detected (scan_extended sk (output_lines w (now s)) s)"
      "extended_loop sk w extra ext s =
         extended_loop sk w extra ext
           ((scan_extended sk (output_lines w (now s)) s)\<lparr>now := now s + 200\<rparr>)"
  using extended_loop_stop[of s extra ext w sk] extended_loop_break[of s extra ext w sk]
    extended_loop_step[of s extra ext w sk]
  by blast

lemma extended_loop_frame [simp]:
  "spawned (extended_loop sk w extra ext s) = spawned s"
  "stopped (extended_loop sk w extra ext s) = stopped s"
  "printed (extended_loop sk w extra ext s) = printed s"
  "connection_detected (extended_loop sk w extra ext s) = connection_detected s"
  "kill_sent (extended_loop sk w extra ext s) = kill_sent s"
proof (induction sk w extra ext s rule: extended_loop.induct)
  case (1 sk w extra ext s)
  {
    case 5
    show ?case
      using "1.IH"(5)[OF _ _ refl]
      by (cases rule: extended_loop_cases[of s extra ext w sk]) simp_all
  next
    case 1
    show ?case
      using "1.IH"(1)[OF _ _ refl]
      by (cases rule: extended_loop_cases[of s extra ext w sk]) simp_all
  next
    case 2
    show ?case
      using "1.IH"(2)[OF _ _ refl]
      by (cases rule: extended_loop_cases[of s extra ext w sk]) simp_all
  next
    case 3
    show ?case
      using "1.IH"(3)[OF _ _ refl]
      by (cases rule: extended_loop_cases[of s extra ext w sk]) simp_all
  next
    case 4
    show ?case
      using "1.IH"(4)[OF _ _ refl]
      by (cases rule: extended_loop_cases[of s extra ext w sk]) simp_all
  }
qed

lemma extended_loop_now_mono: "now s \<le> now (extended_loop sk w extra ext s)"
proof (induction sk w extra ext s rule: extended_loop.induct)
  case (1 sk w extra ext s)
  show ?case
  proof (cases rule: extended_loop_cases[of s extra ext w sk])
    case stop
    then show ?thesis by simp
  next
    case break
    then show ?thesis by simp
  next
    case step
    then show ?thesis using "1.IH"[OF _ _ refl] by simp
  qed
qed

lemma extended_loop_success_mono:
  "success_detected s \<Longrightarrow> success_detected (extended_loop sk w extra ext s)"
proof (induction sk w extra ext s rule: extended_loop.induct)
  case (1 sk w extra ext s)
  show ?case
  proof (cases rule: extended_loop_cases[of s extra ext w sk])
    case stop
    then show ?thesis using "1.prems" by simp
  next
    case break
    then show ?thesis by simp
  next
    case step
    then show ?thesis using "1.prems" by (simp add: scan_extended_success)
  qed
qed

lemma extended_loop_ticks: "\<exists>k. now (extended_loop sk w extra ext s) = now s + 200 * int k"
proof (induction sk w extra ext s rule: extended_loop.induct)
  case (1 sk w extra ext s)
  show ?case
  proof (cases rule: extended_loop_cases[of s extra ext w sk])
    case stop
    then have "now (extended_loop sk w extra ext s) = now s + 200 * int 0" by simp
    then show ?thesis by blast
  next
    case break
    then have "now (extended_loop sk w extra ext s) = now s + 200 * int 0" by simp
    then show ?thesis by blast
  next
    case step
    from "1.IH"[OF _ _ refl] step(1,2,3)
    obtain k where "now (extended_loop sk w extra ext
        ((scan_extended sk (output_lines w (now s)) s)\<lparr>now := now s + 200\<rparr>)) =
        now s + 200 + 200 * int k"
      by auto
    then have "now (extended_loop sk w extra ext s) = now s + 200 * int (Suc k)"
      by (simp only: step(4)) simp
    then show ?thesis by blast
  qed
qed




lemma extended_loop_detects:
  assumes "t = now s + 200 * int k" "t - extra < ext"
    and "spawned s" "\<not> stopped s" "\<not> self_exited w t"
    and "list_ex (any_in sk) (output_lines w t)"
  shows "success_detected (extended_loop sk w extra ext s)"
  using assms
proof (induction sk w extra ext s arbitrary: k rule: extended_loop.induct)
  case (1 sk w extra ext s)
  have "now s \<le> t" using "1.prems"(1) by simp
  then have run: "running w s"
    using "1.prems" self_exited_mono[of w "now s" t] by (auto simp: running_def)
  show ?case
  proof (cases rule: extended_loop_cases[of s extra ext w sk])
    case stop
    then show ?thesis using run "1.prems"(1,2) by simp
  next
    case break
    then show ?thesis by simp
  next
    case step
    let ?s' = "(scan_extended sk (output_lines w (now s)) s)\<lparr>now := now s + 200\<rparr>"
    show ?thesis
    proof (cases k)
      case 0
      then have "now s = t" using "1.prems"(1) by simp
      then have "success_detected (scan_extended sk (output_lines w (now s)) s)"
        using "1.prems" by (simp add: scan_extended_success)
      then show ?thesis using step(3) by simp
    next
      case (Suc k')
      then have "t = now s + 200 + 200 * int k'" using "1.prems"(1) by simp
      then have "success_detected (extended_loop sk w extra ext ?s')"
        using step(1,2,3) "1.prems"(2-6) by (intro "1.IH"[OF _ _ refl, of k']) simp_all
      then show ?thesis by (simp only: step(4))
    qed
  qed
qed

subsection \<open>Termination and verdict\<close>

lemma terminate_process_frame [simp]:
  "spawned (terminate_process w s) = spawned s"
  "success_detected (terminate_process w s) = success_detected s"
  "connection_detected (terminate_process w s) = connection_detected s"
  "printed (terminate_process w s) = printed s"
  by (simp_all add: terminate_process_def split: option.splits)

lemma terminate_process_now:
  "now s \<le> now (terminate_process w s) \<and> now (terminate_process w s) \<le> now s + 2000"
  by (auto simp: terminate_process_def running_def self_exited_def sigterm_exit_def
      split: option.splits)

lemma terminate_process_at_once:
  "windows w \<or> sigterm_delay w = Some 0 \<Longrightarrow> now (terminate_process w s) = now s"
  by (auto simp: terminate_process_def running_def self_exited_def sigterm_exit_def
      split: option.splits)

text \<open>After the termination block the process is gone, or \<open>SIGKILL\<close> has been sent.\<close>

lemma terminate_process_outcome:
  "kill_sent (terminate_process w s) \<or> \<not> running w (terminate_process w s)"
  by (auto simp: terminate_process_def running_def split: option.splits)




subsection \<open>The whole call\<close>

lemma print_message_ok:
  "prints_succeed w \<Longrightarrow> print_message w m s = Inr (s\<lparr>printed := printed s @ [m]\<rparr>)"
  by (simp add: prints_succeed_def print_message_def)

lemma report_ok:
  assumes "prints_succeed w"
  shows "report w name s =
    Inr (success_detected s, s\<lparr>printed := printed s @ [verdict_message name s]\<rparr>)"
  by (simp add: report_def verdict_message_def print_message_ok[OF assms])

lemma extended_phase_ok:
  assumes "prints_succeed w"
  shows "extended_phase sk w ext s = Inr (extended_wait sk w ext s)"
  by (simp add: extended_phase_def extended_wait_def print_message_ok[OF assms])

lemma verdict_message_terminate [simp]:
  "verdict_message name (terminate_process w s) = verdict_message name s"
  by (simp add: verdict_message_def)

lemma started_eq: "(initial\<lparr>printed := [Testing name]\<rparr>)\<lparr>spawned := True\<rparr> = started name"
  by (simp add: started_def initial_def)

lemma test_channel_normal:
  assumes "raised w = None" and "prints_succeed w"
  shows "test_channel w name url timeout grace ext =
    Inr \<lparr>result = (name, url, success_detected (polling_done w name timeout grace ext)),
         final = (terminate_process w (polling_done w name timeout grace ext))
           \<lparr>printed := printed (polling_done w name timeout grace ext) @
              [verdict_message name (polling_done w name timeout grace ext)]\<rparr>\<rparr>"
proof -
  have p: "popen_raises w = None" "start_raises w = None"
    using assms(1) by (auto simp: raised_def split: option.splits)
  have i: "print_message w (Testing name) initial = Inr (initial\<lparr>printed := [Testing name]\<rparr>)"
    by (simp add: print_message_ok[OF assms(2)] initial_def)
  show ?thesis
    by (simp add: test_channel_def i probe_body_def p started_eq extended_phase_ok[OF assms(2)]
        report_ok[OF assms(2)] polling_done_def main_phase_def Let_def)
qed

lemma test_channel_raised:
  assumes "raised w = Some e" and "prints_succeed w"
  shows "test_channel w name url timeout grace ext =
    Inr \<lparr>result = (name, url, False),
         final = initial\<lparr>spawned := (popen_raises w = None),
                        printed := [Testing name, Error name e]\<rparr>\<rparr>"
  using assms(1)
  by (auto simp: test_channel_def probe_body_def raised_def initial_def
      print_message_ok[OF assms(2)] split: option.splits)

lemma extended_wait_frame [simp]:
  "spawned (extended_wait sk w ext s) = spawned s"
  "stopped (extended_wait sk w ext s) = stopped s"
  "kill_sent (extended_wait sk w ext s) = kill_sent s"
  "connection_detected (extended_wait sk w ext s) = connection_detected s"
  by (simp_all add: extended_wait_def)

lemma extended_wait_now_mono: "now s \<le> now (extended_wait sk w ext s)"
  using extended_loop_now_mono[of "s\<lparr>printed := printed s @ [Waiting]\<rparr>" sk w "now s" ext]
  by (simp add: extended_wait_def)

lemma extended_wait_success_mono:
  "success_detected s \<Longrightarrow> success_detected (extended_wait sk w ext s)"
  by (simp add: extended_wait_def)


lemma started_fields [simp]:
  "now (started name) = 0" "spawned (started name)" "\<not> stopped (started name)"
  "\<not> kill_sent (started name)"
  "\<not> success_detected (started name)" "\<not> connection_detected (started name)"
  "printed (started name) = [Testing name]"
  by (simp_all add: started_def initial_def)

lemma main_phase_frame [simp]:
  "spawned (main_phase w name timeout grace)" "\<not> stopped (main_phase w name timeout grace)"
  "\<not> kill_sent (main_phase w name timeout grace)"
  "printed (main_phase w name timeout grace) = [Testing name]"
  by (simp_all add: main_phase_def)

lemma polling_done_frame [simp]:
  "spawned (polling_done w name timeout grace ext)"
  "\<not> stopped (polling_done w name timeout grace ext)"
  "\<not> kill_sent (polling_done w name timeout grace ext)"
  by (simp_all add: polling_done_def)

lemma polling_done_ge_main:
  "now (main_phase w name timeout grace) \<le> now (polling_done w name timeout grace ext)"
  by (simp add: polling_done_def extended_wait_now_mono)

lemma main_phase_ticks: "\<exists>k. now (main_phase w name timeout grace) = tick 0 k"
  using main_loop_ticks[of success_keywords connecting_keywords w timeout grace "started name"]
  by (simp add: main_phase_def tick_def)

lemma final_now_bounds:
  assumes "raised w = None" and "prints_succeed w"
    and "test_channel w name url timeout grace ext = Inr ses"
  shows "now (polling_done w name timeout grace ext) \<le> now (final ses) \<and>
         now (final ses) \<le> now (polling_done w name timeout grace ext) + 2000 \<and>
         (windows w \<or> sigterm_delay w = Some 0 \<longrightarrow>
            now (final ses) = now (polling_done w name timeout grace ext))"
  using assms(3) terminate_process_now[of "polling_done w name timeout grace ext" w]
    terminate_process_at_once[of w "polling_done w name timeout grace ext"]
  by (auto simp: test_channel_normal[OF assms(1,2)])

lemma final_flags:
  assumes "raised w = None" and "prints_succeed w"
    and "test_channel w name url timeout grace ext = Inr ses"
  shows "success_detected (final ses) = success_detected (polling_done w name timeout grace ext)"
    and "connection_detected (final ses) =
           connection_detected (polling_done w name timeout grace ext)"
    and "result ses = (name, url, success_detected (polling_done w name timeout grace ext))"
    and "printed (final ses) = printed (polling_done w name timeout grace ext) @
           [verdict_message name (polling_done w name timeout grace ext)]"
    and "stopped (final ses) =
           stopped (terminate_process w (polling_done w name timeout grace ext))"
    and "kill_sent (final ses) =
           kill_sent (terminate_process w (polling_done w name timeout grace ext))"
    and "running w (final ses) =
           running w (terminate_process w (polling_done w name timeout grace ext))"
  using assms(3)
  by (auto simp: test_channel_normal[OF assms(1,2)] running_def)


text \<open>
  On the paths without an exception the termination block is passed: when the call
  returns, the process is gone or \<open>SIGKILL\<close> has been sent to it.
\<close>

lemma termination_block_passed:
  assumes "raised w = None" and "prints_succeed w"
    and "test_channel w name url timeout grace_period extended_check = Inr ses"
  shows "kill_sent (final ses) \<or> \<not> running w (final ses)"
  using final_flags(6,7)[OF assms]
    terminate_process_outcome[of w "polling_done w name timeout grace_period extended_check"]
  by simp

text \<open>What the handler of line 102 does catch: when every \<open>print\<close> succeeds, the call
  returns a value whatever \<open>Popen\<close> and \<open>Thread.start\<close> do.\<close>

lemma test_channel_returns_when_prints_succeed:
  assumes "prints_succeed w"
  shows "\<exists>ses. test_channel w name url timeout grace ext = Inr ses"
  using assms by (cases "raised w") (simp_all add: test_channel_normal test_channel_raised)

text \<open>The value returned is true exactly when the last message printed is the one of
  the Success branch.\<close>

lemma probe_body_value:
  assumes "probe_body sk ck w name timeout grace ext s0 = Inr (b, s)"
  shows "printed s \<noteq> [] \<and> (b \<longleftrightarrow> last (printed s) = Success name)"
  using assms
  by (auto simp: probe_body_def report_def print_message_def Let_def
      split: option.splits sum.splits if_splits)

lemma test_channel_value:
  assumes "test_channel w name url timeout grace ext = Inr ses"
  shows "\<exists>b. result ses = (name, url, b) \<and> (b \<longleftrightarrow> last (printed (final ses)) = Success name)"
proof -
  from assms obtain s0 where s0: "print_message w (Testing name) initial = Inr s0"
    by (auto simp: test_channel_def split: sum.splits)
  show ?thesis
  proof (cases "probe_body success_keywords connecting_keywords w name timeout grace ext s0")
    case (Inr r)
    obtain b s where r: "r = (b, s)" by (cases r)
    have "ses = \<lparr>result = (name, url, b), final = s\<rparr>"
      using assms by (simp add: test_channel_def s0 Inr r)
    then show ?thesis using probe_body_value[OF Inr[unfolded r]] by simp
  next
    case (Inl x)
    obtain e s where x: "x = (e, s)" by (cases x)
    from assms obtain s' where p: "print_message w (Error name e) s = Inr s'"
      and ses: "ses = \<lparr>result = (name, url, False), final = s'\<rparr>"
      by (auto simp: test_channel_def s0 Inl x split: sum.splits)
    from p have "last (printed s') = Error name e"
      by (auto simp: print_message_def split: option.splits)
    then show ?thesis using ses by (intro exI[of _ False]) simp
  qed
qed

lemma submit_all_nth:
  assumes "i < length entries"
  shows "submit_all worlds entries ! i =
    test_channel (worlds i) (fst (entries ! i)) (snd (entries ! i)) 4000 1000 2000"
  using assms by (simp add: submit_all_def nth_enumerate_eq split: prod.splits)

text \<open>When no future holds an exception, the loop of \<open>main\<close> logs them all.\<close>

lemma collect_all:
  assumes "\<forall>f \<in> set futures. \<exists>ses. f = Inr ses"
  shows "\<exists>t'. collect futures t = Inr t' \<and>
           map Inr (log_file t') = map Inr (log_file t) @ map future_result futures"
  using assms
proof (induction futures arbitrary: t)
  case Nil
  then show ?case by simp
next
  case (Cons f fs)
  then obtain ses where f: "f = Inr ses" by auto
  obtain name url res where r: "result ses = (name, url, res)" by (cases "result ses")
  let ?t = "(if res then t\<lparr>working_channels := (working_channels t)(name \<mapsto> url)\<rparr>
             else t\<lparr>not_working_channels := (not_working_channels t)(name \<mapsto> url)\<rparr>)
            \<lparr>log_file := log_result name url res (log_file t)\<rparr>"
  from Cons.prems have "\<forall>f \<in> set fs. \<exists>ses. f = Inr ses" by simp
  from Cons.IH[OF this, of ?t]
  obtain t' where "collect fs ?t = Inr t'"
    "map Inr (log_file t') = map Inr (log_file ?t) @ map future_result fs"
    by blast
  then show ?case by (simp add: f r future_result_def log_result_def)
qed

text \<open>
  A keyword is detected when its line is among the accumulated lines at a polling tick
  at which the process has not yet exited on its own.
\<close>

lemma keyword_detected_at_live_tick:
  assumes "raised w = None" and "prints_succeed w"
  shows "\<exists>ses. test_channel w name url timeout grace ext = Inr ses \<and>
     (\<forall>k. tick 0 k < timeout \<and> \<not> self_exited w (tick 0 k) \<and> success_seen w (tick 0 k) \<longrightarrow>
        success_detected (final ses) \<and> result ses = (name, url, True)) \<and>
     (\<forall>k. tick 0 k < timeout \<and> \<not> self_exited w (tick 0 k) \<and> connection_seen w (tick 0 k) \<longrightarrow>
        connection_detected (final ses) \<or> success_detected (final ses)) \<and>
     (\<forall>j. connection_detected (main_phase w name timeout grace) \<and>
          \<not> success_detected (main_phase w name timeout grace) \<and>
          200 * int j < ext \<and>
          \<not> self_exited w (tick (now (main_phase w name timeout grace)) j) \<and>
          success_seen w (tick (now (main_phase w name timeout grace)) j) \<longrightarrow>
        success_detected (final ses) \<and> result ses = (name, url, True))"
proof -
  let ?m = "main_phase w name timeout grace"
  let ?pd = "polling_done w name timeout grace ext"
  obtain ses where ses: "test_channel w name url timeout grace ext = Inr ses"
    by (simp add: test_channel_normal[OF assms])
  note fin = final_flags[OF assms ses]
  have a: "success_detected ?pd"
    if "tick 0 k < timeout" "\<not> self_exited w (tick 0 k)" "success_seen w (tick 0 k)" for k
  proof -
    have "success_detected ?m"
      unfolding main_phase_def
      using that
      by (intro main_loop_detects[of "tick 0 k" _ k]) (simp_all add: tick_def success_seen_def)
    then show ?thesis by (simp add: polling_done_def extended_wait_success_mono)
  qed
  have b: "connection_detected ?pd \<or> success_detected ?pd"
    if "tick 0 k < timeout" "\<not> self_exited w (tick 0 k)" "connection_seen w (tick 0 k)" for k
  proof -
    have "connection_detected ?m \<or> success_detected ?m"
      unfolding main_phase_def
      using that
      by (intro main_loop_detects_connection[of "tick 0 k" _ k])
        (simp_all add: tick_def connection_seen_def)
    then show ?thesis by (auto simp: polling_done_def extended_wait_success_mono)
  qed
  have c: "success_detected ?pd"
    if "connection_detected ?m" "\<not> success_detected ?m" "200 * int j < ext"
      "\<not> self_exited w (tick (now ?m) j)" "success_seen w (tick (now ?m) j)" for j
  proof -
    have "success_detected (extended_loop success_keywords w (now ?m) ext
            (?m\<lparr>printed := printed ?m @ [Waiting]\<rparr>))"
      using that
      by (intro extended_loop_detects[of "tick (now ?m) j" _ j])
        (simp_all add: tick_def success_seen_def)
    then show ?thesis using that(1,2) by (simp add: polling_done_def extended_wait_def)
  qed
  show ?thesis using ses fin(1,2,3) a b c by (intro exI[of _ ses]) auto
qed

subsection \<open>Evaluating a session\<close>

lemma keywords_opening:
  "\<not> any_in success_keywords (ascii ''Opening http://a'')"
  "any_in connecting_keywords (ascii ''Opening http://a'')"
  "any_in css_success_keywords (ascii ''Opening http://a'')"
  by (simp_all add: any_in_def success_keywords_def connecting_keywords_def
      css_success_keywords_def ascii_def sublist_code prefix_code)

lemma keywords_stream:
  "any_in success_keywords (ascii ''Stream #0:0: Video: h264'')"
  "\<not> any_in connecting_keywords (ascii ''Stream #0:0: Video: h264'')"
  by (simp_all add: any_in_def success_keywords_def connecting_keywords_def
      ascii_def sublist_code prefix_code)

lemma prints_succeed_quiet [simp]:
  "prints_succeed quiet_world"
  "prints_succeed (quiet_world\<lparr>stderr_feed := f\<rparr>)"
  "prints_succeed (quiet_world\<lparr>stderr_feed := f, exit_at := e\<rparr>)"
  by (simp_all add: prints_succeed_def quiet_world_def)

lemmas session_simps =
  test_channel_def check_stream_status_def probe_body_def initial_def started_def
  main_phase_def polling_done_def print_message_def extended_wait_def
  main_loop.simps extended_loop.simps extended_phase_def terminate_process_def
  sigterm_exit_def report_def running_def self_exited_def output_lines_def quiet_world_def
  Let_def keywords_opening keywords_stream

lemma session_connecting_only:
  "test_channel (quiet_world\<lparr>stderr_feed := [(0, ascii ''Opening http://a'')]\<rparr>)
     name url 4000 1000 2000 =
   Inr \<lparr>result = (name, url, False),
        final = \<lparr>now = 6000, spawned = True, stopped = True, kill_sent = False,
          success_detected = False, connection_detected = True,
          printed = [Testing name, Waiting, Maybe name]\<rparr>\<rparr>"
  by (simp add: session_simps)

lemma session_quiet:
  "test_channel quiet_world name url 4000 1000 2000 =
   Inr \<lparr>result = (name, url, False),
        final = \<lparr>now = 4000, spawned = True, stopped = True, kill_sent = False,
          success_detected = False, connection_detected = False,
          printed = [Testing name, Fail name]\<rparr>\<rparr>"
  by (simp add: session_simps)

section \<open>The claims about the classifier and the scheduler\<close>

text \<open>
  C1 (the claim as stated fails). A session that saw a connection but no media
  (Ambiguous) and a session that saw nothing (Failure) return the same value,
  \<open>(name, url, False)\<close>; only the printed messages differ.
\<close>

theorem outcome_not_three_valued_counterexample:
  "test_channel (quiet_world\<lparr>stderr_feed := [(0, ascii ''Opening http://a'')]\<rparr>)
     (ascii ''A'') (ascii ''http://a'') 4000 1000 2000 =
   Inr \<lparr>result = (ascii ''A'', ascii ''http://a'', False),
        final = \<lparr>now = 6000, spawned = True, stopped = True, kill_sent = False,
          success_detected = False, connection_detected = True,
          printed = [Testing (ascii ''A''), Waiting, Maybe (ascii ''A'')]\<rparr>\<rparr> \<and>
   test_channel quiet_world (ascii ''A'') (ascii ''http://a'') 4000 1000 2000 =
   Inr \<lparr>result = (ascii ''A'', ascii ''http://a'', False),
        final = \<lparr>now = 4000, spawned = True, stopped = True, kill_sent = False,
          success_detected = False, connection_detected = False,
          printed = [Testing (ascii ''A''), Fail (ascii ''A'')]\<rparr>\<rparr>"
  by (simp add: session_connecting_only session_quiet)

text \<open>
  C1 (as amended). Whenever \<open>test_channel\<close> returns, it returns \<open>(name, url, b)\<close> with a
  truth value \<open>b\<close> that is true exactly when the Success message has been printed last.
  When every \<open>print\<close> succeeds it does return, and \<open>b\<close> is the flag \<open>success_detected\<close>:
  true in the Success case, false in the Ambiguous case, in the Failure case and after
  an exception of \<open>Popen\<close> or \<open>Thread.start\<close>. The cases are told apart by the last
  message printed, not by the value returned.
\<close>

theorem test_channel_returns_flag:
  "(\<forall>ses. test_channel w name url timeout grace_period extended_check = Inr ses \<longrightarrow>
      (\<exists>b. result ses = (name, url, b) \<and>
           (b \<longleftrightarrow> last (printed (final ses)) = Success name))) \<and>
   (prints_succeed w \<longrightarrow>
      (\<exists>ses. test_channel w name url timeout grace_period extended_check = Inr ses \<and>
         result ses = (name, url, success_detected (final ses)) \<and>
         last (printed (final ses)) =
           (case raised w of
              Some e \<Rightarrow> Error name e
            | None \<Rightarrow>
                if success_detected (final ses) then Success name
                else if connection_detected (final ses) then Maybe name
                else Fail name)))"
proof -
  have "\<exists>ses. test_channel w name url timeout grace_period extended_check = Inr ses \<and>
         result ses = (name, url, success_detected (final ses)) \<and>
         last (printed (final ses)) =
           (case raised w of
              Some e \<Rightarrow> Error name e
            | None \<Rightarrow>
                if success_detected (final ses) then Success name
                else if connection_detected (final ses) then Maybe name
                else Fail name)"
    if p: "prints_succeed w"
  proof (cases "raised w")
    case None
    then show ?thesis
      by (simp add: test_channel_normal[OF None p] verdict_message_def)
  next
    case (Some e)
    then show ?thesis
      by (simp add: test_channel_raised[OF Some p] initial_def)
  qed
  then show ?thesis using test_channel_value by blast
qed

text \<open>
  C1, at an example: a stream whose only line has a connecting keyword. The value
  returned is \<open>False\<close> and the last message is MAYBE.
\<close>

theorem test_channel_returns_flag_witness:
  "\<exists>ses. test_channel (quiet_world\<lparr>stderr_feed := [(0, ascii ''Opening http://a'')]\<rparr>)
       (ascii ''A'') (ascii ''http://a'') 4000 1000 2000 = Inr ses \<and>
     result ses = (ascii ''A'', ascii ''http://a'', False) \<and>
     \<not> success_detected (final ses) \<and>
     last (printed (final ses)) = Maybe (ascii ''A'')"
proof -
  let ?w = "quiet_world\<lparr>stderr_feed := [(0, ascii ''Opening http://a'')]\<rparr>"
  have p: "prints_succeed ?w" by simp
  have r: "raised ?w = None" by (simp add: raised_def quiet_world_def)
  from test_channel_returns_flag[of ?w "ascii ''A''" "ascii ''http://a''" 4000 1000 2000] p
  obtain ses where ses: "test_channel ?w (ascii ''A'') (ascii ''http://a'') 4000 1000 2000 = Inr ses"
    and res: "result ses = (ascii ''A'', ascii ''http://a'', success_detected (final ses))"
    and msg: "last (printed (final ses)) =
           (case raised ?w of
              Some e \<Rightarrow> Error (ascii ''A'') e
            | None \<Rightarrow>
                if success_detected (final ses) then Success (ascii ''A'')
                else if connection_detected (final ses) then Maybe (ascii ''A'')
                else Fail (ascii ''A''))"
    by blast
  have f: "\<not> success_detected (final ses)" "connection_detected (final ses)"
    using ses by (auto simp: session_connecting_only)
  show ?thesis using ses res msg f r by simp
qed

text \<open>
  C2 (the code at the failing input). \<open>Popen\<close> succeeds, the process never exits on
  its own, and \<open>stderr_thread.start()\<close> raises \<open>RuntimeError\<close>: the handler returns
  \<open>(name, url, False)\<close> and the process is still running at that moment.
\<close>

theorem process_left_running:
  "test_channel (quiet_world\<lparr>start_raises := Some RuntimeError\<rparr>) name url 4000 1000 2000 =
     Inr \<lparr>result = (name, url, False),
          final = \<lparr>now = 0, spawned = True, stopped = False, kill_sent = False,
            success_detected = False, connection_detected = False,
            printed = [Testing name, Error name RuntimeError]\<rparr>\<rparr> \<and>
   running (quiet_world\<lparr>start_raises := Some RuntimeError\<rparr>)
     \<lparr>now = 0, spawned = True, stopped = False, kill_sent = False,
      success_detected = False, connection_detected = False,
      printed = [Testing name, Error name RuntimeError]\<rparr>"
  by (simp add: session_simps)

text \<open>
  C3 (the claim as stated fails). With \<open>grace_period = 1\<close> and a success keyword at
  \<open>t = 0.3\<close>: when the process exits on its own at \<open>t = 0.5\<close>, the main loop is left at
  \<open>t = 0.6\<close> and Success is reported then, before the grace period is over; when the
  process ignores \<open>SIGTERM\<close>, the loop is left at \<open>t = 1.0\<close> but Success is reported only
  at \<open>t = 3.0\<close>, after \<open>process.wait(timeout=2)\<close> has run out.
\<close>

theorem early_exit_counterexample:
  "test_channel (quiet_world\<lparr>stderr_feed := [(300, ascii ''Stream #0:0: Video: h264'')],
        exit_at := Some 500\<rparr>) (ascii ''A'') (ascii ''http://a'') 4000 1000 2000 =
     Inr \<lparr>result = (ascii ''A'', ascii ''http://a'', True),
          final = \<lparr>now = 600, spawned = True, stopped = False, kill_sent = False,
            success_detected = True, connection_detected = False,
            printed = [Testing (ascii ''A''), Success (ascii ''A'')]\<rparr>\<rparr> \<and>
   now (main_phase (quiet_world\<lparr>stderr_feed := [(300, ascii ''Stream #0:0: Video: h264'')],
        exit_at := Some 500\<rparr>) (ascii ''A'') 4000 1000) = 600 \<and>
   test_channel (quiet_world\<lparr>stderr_feed := [(300, ascii ''Stream #0:0: Video: h264'')],
        sigterm_delay := None\<rparr>) (ascii ''A'') (ascii ''http://a'') 4000 1000 2000 =
     Inr \<lparr>result = (ascii ''A'', ascii ''http://a'', True),
          final = \<lparr>now = 3000, spawned = True, stopped = False, kill_sent = True,
            success_detected = True, connection_detected = False,
            printed = [Testing (ascii ''A''), Success (ascii ''A'')]\<rparr>\<rparr>"
  by (simp add: session_simps)

text \<open>
  C3 (as amended). In every session the main loop ends before the timeout if and only
  if, at some polling tick before the timeout, the process has exited on its own, or a
  success keyword is among the accumulated lines and the elapsed time is at least
  \<open>grace_period\<close>; it ends at the first such tick. So for a session whose process does
  not exit on its own before the timeout, the loop ends early if and only if at some
  tick before the timeout success has been detected and the elapsed time is at least
  \<open>grace_period\<close>, at the first such tick, with \<open>success_detected\<close> set. In such a session
  with \<open>grace_period \<le> timeout\<close> (and no exception), Success is never reported before
  \<open>grace_period\<close> has passed, and the outcome is returned once the termination block
  is through: at the end of the polling when \<open>taskkill\<close> is used or the process exits
  at once on \<open>SIGTERM\<close>, and at most 2000 ms later otherwise.
\<close>

theorem early_exit_needs_success_and_grace:
  "(now (main_phase w name timeout grace) < timeout \<longleftrightarrow>
      (\<exists>k. tick 0 k < timeout \<and>
         (self_exited w (tick 0 k) \<or> grace \<le> tick 0 k \<and> success_seen w (tick 0 k)))) \<and>
   (\<forall>k. tick 0 k < timeout \<and>
         (self_exited w (tick 0 k) \<or> grace \<le> tick 0 k \<and> success_seen w (tick 0 k)) \<longrightarrow>
      now (main_phase w name timeout grace) \<le> tick 0 k) \<and>
   (\<not> self_exited w (timeout - 1) \<longrightarrow>
      (now (main_phase w name timeout grace) < timeout \<longleftrightarrow>
         (\<exists>k. tick 0 k < timeout \<and> grace \<le> tick 0 k \<and> success_seen w (tick 0 k))) \<and>
      (\<forall>k. tick 0 k < timeout \<and> grace \<le> tick 0 k \<and> success_seen w (tick 0 k) \<longrightarrow>
         now (main_phase w name timeout grace) \<le> tick 0 k) \<and>
      (now (main_phase w name timeout grace) < timeout \<longrightarrow>
         success_detected (main_phase w name timeout grace) \<and>
         grace \<le> now (main_phase w name timeout grace))) \<and>
   (raised w = None \<and> prints_succeed w \<and> \<not> self_exited w (timeout - 1) \<and>
    grace \<le> timeout \<longrightarrow>
      (\<exists>ses. test_channel w name url timeout grace ext = Inr ses \<and>
         (snd (snd (result ses)) \<longrightarrow> grace \<le> now (final ses)) \<and>
         now (polling_done w name timeout grace ext) \<le> now (final ses) \<and>
         now (final ses) \<le> now (polling_done w name timeout grace ext) + 2000 \<and>
         (windows w \<or> sigterm_delay w = Some 0 \<longrightarrow>
            now (final ses) = now (polling_done w name timeout grace ext))))"
proof -
  let ?m = "main_phase w name timeout grace"
  let ?pd = "polling_done w name timeout grace ext"
  have by_success: "now ?m \<le> tick 0 k"
    if "tick 0 k < timeout" "grace \<le> tick 0 k" "success_seen w (tick 0 k)" for k
    using that
      main_loop_exit_by[of "tick 0 k" "started name" k timeout grace success_keywords w
        connecting_keywords]
    by (simp add: main_phase_def tick_def success_seen_def)
  have by_exit: "now ?m \<le> tick 0 k" if "self_exited w (tick 0 k)" for k
    using that
      main_loop_exit_by_exited[of "tick 0 k" "started name" k w success_keywords
        connecting_keywords timeout grace]
    by (simp add: main_phase_def tick_def)
  have early: "self_exited w (now ?m) \<or> success_detected ?m \<and> grace \<le> now ?m"
    if "now ?m < timeout"
    using that
      main_loop_early_exit[of "started name" success_keywords connecting_keywords w timeout grace]
    by (simp add: main_phase_def)
  have sound: "success_seen w (now ?m)" if "success_detected ?m"
    using that
      main_loop_success_sound[of success_keywords connecting_keywords w timeout grace
        "started name"]
    by (simp add: main_phase_def success_seen_def)
  obtain k0 where k0: "now ?m = tick 0 k0" using main_phase_ticks by blast
  have left: "\<exists>k. tick 0 k < timeout \<and>
         (self_exited w (tick 0 k) \<or> grace \<le> tick 0 k \<and> success_seen w (tick 0 k))"
    if lt: "now ?m < timeout"
    using early[OF lt] sound lt k0 by (intro exI[of _ k0]) auto
  have 1: "now ?m < timeout \<longleftrightarrow>
      (\<exists>k. tick 0 k < timeout \<and>
         (self_exited w (tick 0 k) \<or> grace \<le> tick 0 k \<and> success_seen w (tick 0 k)))"
    using left by_success by_exit by force
  have 2: "\<forall>k. tick 0 k < timeout \<and>
         (self_exited w (tick 0 k) \<or> grace \<le> tick 0 k \<and> success_seen w (tick 0 k)) \<longrightarrow>
      now ?m \<le> tick 0 k"
    using by_success by_exit by blast
  have noexit: "\<not> self_exited w t" if "\<not> self_exited w (timeout - 1)" "t < timeout" for t
    using that self_exited_mono[of w t "timeout - 1"] by auto
  have early': "success_detected ?m \<and> grace \<le> now ?m"
    if "\<not> self_exited w (timeout - 1)" "now ?m < timeout"
    using early[OF that(2)] noexit[OF that] by blast
  have 3: "(now ?m < timeout \<longleftrightarrow>
         (\<exists>k. tick 0 k < timeout \<and> grace \<le> tick 0 k \<and> success_seen w (tick 0 k))) \<and>
      (\<forall>k. tick 0 k < timeout \<and> grace \<le> tick 0 k \<and> success_seen w (tick 0 k) \<longrightarrow>
         now ?m \<le> tick 0 k) \<and>
      (now ?m < timeout \<longrightarrow> success_detected ?m \<and> grace \<le> now ?m)"
    if n: "\<not> self_exited w (timeout - 1)"
  proof -
    have "\<exists>k. tick 0 k < timeout \<and> grace \<le> tick 0 k \<and> success_seen w (tick 0 k)"
      if lt: "now ?m < timeout"
      using early'[OF n lt] sound lt k0 by (intro exI[of _ k0]) auto
    then show ?thesis using by_success early'[OF n] by force
  qed
  have 4: "\<exists>ses. test_channel w name url timeout grace ext = Inr ses \<and>
         (snd (snd (result ses)) \<longrightarrow> grace \<le> now (final ses)) \<and>
         now ?pd \<le> now (final ses) \<and> now (final ses) \<le> now ?pd + 2000 \<and>
         (windows w \<or> sigterm_delay w = Some 0 \<longrightarrow> now (final ses) = now ?pd)"
    if r: "raised w = None" and p: "prints_succeed w"
      and n: "\<not> self_exited w (timeout - 1)" and g: "grace \<le> timeout"
  proof -
    obtain ses where ses: "test_channel w name url timeout grace ext = Inr ses"
      by (simp add: test_channel_normal[OF r p])
    have bounds: "now ?pd \<le> now (final ses) \<and> now (final ses) \<le> now ?pd + 2000 \<and>
         (windows w \<or> sigterm_delay w = Some 0 \<longrightarrow> now (final ses) = now ?pd)"
      using final_now_bounds[OF r p ses] .
    have "grace \<le> now ?m"
    proof (cases "now ?m < timeout")
      case True
      then show ?thesis using early'[OF n] by simp
    next
      case False
      then show ?thesis using g by simp
    qed
    then have "grace \<le> now (final ses)"
      using bounds polling_done_ge_main[of w name timeout grace ext] by linarith
    then show ?thesis using ses bounds by blast
  qed
  show ?thesis using 1 2 3 4 by blast
qed

text \<open>
  C3, at the example of the claim: keyword at \<open>t = 0.3\<close>, \<open>grace_period = 1\<close>,
  \<open>timeout = 4\<close>, a process that would exit on its own at \<open>t = 4.3\<close> and exits at once on
  \<open>SIGTERM\<close>. The loop ends at the tick \<open>t = 1.0\<close> and Success is reported then. With an
  exit at \<open>t = 0.5\<close> instead, the loop is over by the tick \<open>t = 0.6\<close>.
\<close>

theorem early_exit_needs_success_and_grace_witness:
  "now (main_phase (quiet_world\<lparr>stderr_feed := [(300, ascii ''Stream #0:0: Video: h264'')],
          exit_at := Some 4300\<rparr>) (ascii ''A'') 4000 1000) = 1000 \<and>
   (\<exists>ses. test_channel (quiet_world\<lparr>stderr_feed := [(300, ascii ''Stream #0:0: Video: h264'')],
          exit_at := Some 4300\<rparr>) (ascii ''A'') (ascii ''http://a'') 4000 1000 2000 = Inr ses \<and>
        snd (snd (result ses)) \<and> now (final ses) = 1000) \<and>
   now (main_phase (quiet_world\<lparr>stderr_feed := [(300, ascii ''Stream #0:0: Video: h264'')],
          exit_at := Some 500\<rparr>) (ascii ''A'') 4000 1000) \<le> 600"
proof -
  let ?w = "quiet_world\<lparr>stderr_feed := [(300, ascii ''Stream #0:0: Video: h264'')],
          exit_at := Some 4300\<rparr>"
  let ?v = "quiet_world\<lparr>stderr_feed := [(300, ascii ''Stream #0:0: Video: h264'')],
          exit_at := Some 500\<rparr>"
  let ?m = "main_phase ?w (ascii ''A'') 4000 1000"
  note main = early_exit_needs_success_and_grace[of ?w "ascii ''A''" 4000 1000
      "ascii ''http://a''" 2000]
  note other = early_exit_needs_success_and_grace[of ?v "ascii ''A''" 4000 1000
      "ascii ''http://a''" 2000]
  have n: "\<not> self_exited ?w (4000 - 1)" by (simp add: self_exited_def quiet_world_def)
  have seen: "tick 0 5 < 4000 \<and> 1000 \<le> tick 0 5 \<and> success_seen ?w (tick 0 5)"
    by (simp add: tick_def success_seen_def output_lines_def quiet_world_def keywords_stream)
  then have lt: "now ?m < 4000" using main n by blast
  have "now ?m \<le> tick 0 5" using main n seen by blast
  moreover have "1000 \<le> now ?m" using main n lt by blast
  ultimately have m: "now ?m = 1000" by (simp add: tick_def)
  have t: "test_channel ?w (ascii ''A'') (ascii ''http://a'') 4000 1000 2000 =
    Inr \<lparr>result = (ascii ''A'', ascii ''http://a'', True),
         final = \<lparr>now = 1000, spawned = True, stopped = True, kill_sent = False,
            success_detected = True, connection_detected = False,
            printed = [Testing (ascii ''A''), Success (ascii ''A'')]\<rparr>\<rparr>"
    by (simp add: session_simps)
  have "tick 0 3 < 4000 \<and> self_exited ?v (tick 0 3)"
    by (simp add: tick_def self_exited_def quiet_world_def)
  then have "now (main_phase ?v (ascii ''A'') 4000 1000) \<le> tick 0 3" using other by blast
  then show ?thesis using m by (simp add: t tick_def)
qed

text \<open>
  C4 (the code at the failing input). The process writes a line with a success
  keyword at \<open>t = 0.05\<close> and exits at \<open>t = 0.1\<close>. The first tick (\<open>t = 0\<close>) finds no line;
  at the second (\<open>t = 0.2\<close>) the loop sees that the process has exited and breaks before
  it scans, and nothing scans after the loop: the verdict is Failure although the line
  is in \<open>output_lines\<close>. With the same line at \<open>t = 0.3\<close> and the exit at \<open>t = 0.5\<close> a tick
  (\<open>t = 0.4\<close>) falls between the two and the verdict is Success.
\<close>

theorem keyword_missed_after_exit:
  "list_ex (any_in success_keywords)
     (output_lines (quiet_world\<lparr>stderr_feed := [(50, ascii ''Stream #0:0: Video: h264'')],
        exit_at := Some 100\<rparr>) 200) \<and>
   test_channel (quiet_world\<lparr>stderr_feed := [(50, ascii ''Stream #0:0: Video: h264'')],
        exit_at := Some 100\<rparr>) (ascii ''A'') (ascii ''http://a'') 4000 1000 2000 =
     Inr \<lparr>result = (ascii ''A'', ascii ''http://a'', False),
          final = \<lparr>now = 200, spawned = True, stopped = False, kill_sent = False,
            success_detected = False, connection_detected = False,
            printed = [Testing (ascii ''A''), Fail (ascii ''A'')]\<rparr>\<rparr> \<and>
   test_channel (quiet_world\<lparr>stderr_feed := [(300, ascii ''Stream #0:0: Video: h264'')],
        exit_at := Some 500\<rparr>) (ascii ''A'') (ascii ''http://a'') 4000 1000 2000 =
     Inr \<lparr>result = (ascii ''A'', ascii ''http://a'', True),
          final = \<lparr>now = 600, spawned = True, stopped = False, kill_sent = False,
            success_detected = True, connection_detected = False,
            printed = [Testing (ascii ''A''), Success (ascii ''A'')]\<rparr>\<rparr>"
  by (simp add: session_simps)




text \<open>
  C6 (the code at the failing input). Standard output is a pipe whose reader goes away
  during the run. Entry \<open>B\<close> has printed its first message before that, entry \<open>A\<close> has
  not. In the session of \<open>A\<close> the \<open>print\<close> of line 24, which stands before \<open>try\<close>, raises
  \<open>BrokenPipeError\<close>, and the exception leaves \<open>test_channel\<close>. In the session of \<open>B\<close> the
  \<open>print\<close> of the verdict raises inside \<open>try\<close>, the handler catches it, and the \<open>print\<close>
  of line 103 inside the handler raises in its turn. \<open>future.result()\<close> raises the
  exception again in \<open>main\<close>, which ends with it in whatever order the futures complete;
  nothing is logged for the entry that completes later.
\<close>

theorem print_failure_ends_main:
  "test_channel (quiet_world\<lparr>print_raises := (\<lambda>i. Some BrokenPipeError)\<rparr>)
     (ascii ''A'') (ascii ''http://a'') 4000 1000 2000 = Inl BrokenPipeError \<and>
   test_channel (quiet_world\<lparr>print_raises := (\<lambda>i. if i = 0 then None else Some BrokenPipeError),
       stderr_feed := [(300, ascii ''Stream #0:0: Video: h264'')]\<rparr>)
     (ascii ''B'') (ascii ''http://b'') 4000 1000 2000 = Inl BrokenPipeError \<and>
   collect
     (submit_all
        (\<lambda>i. if i = 0 then quiet_world\<lparr>print_raises := (\<lambda>i. Some BrokenPipeError)\<rparr>
              else quiet_world\<lparr>print_raises := (\<lambda>i. if i = 0 then None else Some BrokenPipeError),
                     stderr_feed := [(300, ascii ''Stream #0:0: Video: h264'')]\<rparr>)
        [(ascii ''A'', ascii ''http://a''), (ascii ''B'', ascii ''http://b'')])
     empty_tally = Inl BrokenPipeError \<and>
   collect
     (rev (submit_all
        (\<lambda>i. if i = 0 then quiet_world\<lparr>print_raises := (\<lambda>i. Some BrokenPipeError)\<rparr>
              else quiet_world\<lparr>print_raises := (\<lambda>i. if i = 0 then None else Some BrokenPipeError),
                     stderr_feed := [(300, ascii ''Stream #0:0: Video: h264'')]\<rparr>)
        [(ascii ''A'', ascii ''http://a''), (ascii ''B'', ascii ''http://b'')]))
     empty_tally = Inl BrokenPipeError"
proof -
  have a: "test_channel (quiet_world\<lparr>print_raises := (\<lambda>i. Some BrokenPipeError)\<rparr>)
     (ascii ''A'') (ascii ''http://a'') 4000 1000 2000 = Inl BrokenPipeError"
    by (simp add: session_simps)
  have b: "test_channel
     (quiet_world\<lparr>print_raises := (\<lambda>i. if i = 0 then None else Some BrokenPipeError),
       stderr_feed := [(300, ascii ''Stream #0:0: Video: h264'')]\<rparr>)
     (ascii ''B'') (ascii ''http://b'') 4000 1000 2000 = Inl BrokenPipeError"
    by (simp add: session_simps)
  show ?thesis by (simp add: a b submit_all_def future_result_def)
qed

text \<open>
  C9. The success keywords of \<open>check_stream_status\<close> are those of \<open>test_channel\<close> and
  \<open>Opening\<close> and \<open>AVFormat\<close> in addition; and there is a world, one whose only line
  contains \<open>Opening\<close>, in which \<open>check_stream_status\<close> returns \<open>True\<close> while
  \<open>test_channel\<close> returns \<open>False\<close> with the message MAYBE.
\<close>

theorem classifiers_differ:
  "set css_success_keywords = set success_keywords \<union> {ascii ''Opening'', ascii ''AVFormat''} \<and>
   ascii ''Opening'' \<notin> set success_keywords \<and> ascii ''AVFormat'' \<notin> set success_keywords \<and>
   (\<exists>w. \<exists>a b. list_ex (any_in css_success_keywords) (map snd (stderr_feed w)) \<and>
      check_stream_status w name url 4000 1000 2000 = Inr a \<and> result a = True \<and>
      test_channel w name url 4000 1000 2000 = Inr b \<and> result b = (name, url, False) \<and>
      last (printed (final b)) = Maybe name)"
proof -
  let ?w = "quiet_world\<lparr>stderr_feed := [(0, ascii ''Opening http://a'')]\<rparr>"
  have 1: "set css_success_keywords =
      set success_keywords \<union> {ascii ''Opening'', ascii ''AVFormat''}"
    by (auto simp: css_success_keywords_def success_keywords_def)
  have 2: "ascii ''Opening'' \<notin> set success_keywords \<and> ascii ''AVFormat'' \<notin> set success_keywords"
    by (simp add: success_keywords_def ascii_def)
  have 3: "list_ex (any_in css_success_keywords) (map snd (stderr_feed ?w))"
    by (simp add: keywords_opening)
  have 4: "check_stream_status ?w name url 4000 1000 2000 =
     Inr \<lparr>result = True,
          final = \<lparr>now = 1000, spawned = True, stopped = True, kill_sent = False,
            success_detected = True, connection_detected = True,
            printed = [Testing name, Success name]\<rparr>\<rparr>"
    by (simp add: session_simps)
  have 5: "test_channel ?w name url 4000 1000 2000 =
     Inr \<lparr>result = (name, url, False),
          final = \<lparr>now = 6000, spawned = True, stopped = True, kill_sent = False,
            success_detected = False, connection_detected = True,
            printed = [Testing name, Waiting, Maybe name]\<rparr>\<rparr>"
    by (rule session_connecting_only)
  have "\<exists>a b. list_ex (any_in css_success_keywords) (map snd (stderr_feed ?w)) \<and>
      check_stream_status ?w name url 4000 1000 2000 = Inr a \<and> result a = True \<and>
      test_channel ?w name url 4000 1000 2000 = Inr b \<and> result b = (name, url, False) \<and>
      last (printed (final b)) = Maybe name"
    unfolding 4 5 using 3 by simp
  then show ?thesis using 1 2 by blast
qed

end
